theory Spec2Isabelle
  imports Complex_Main "HOL-Library.AList" "HOL-Library.Sublist"
begin

section \<open>The parsed document\<close>

text \<open>
  The converter reads a Draw.io file with \<^verbatim>\<open>xml.etree.ElementTree\<close>. An element of the
  parsed document is its tag, its attribute dictionary and its sub-elements in document
  order. Strings are sequences of code points below 256.
\<close>

datatype element = Element (tag: string) (attrib: "(string \<times> string) list")
  (subelements: "element list")

text \<open>\<^verbatim>\<open>elem.get(key)\<close>: the attribute, or \<open>None\<close>.\<close>

definition get_attr :: "element \<Rightarrow> string \<Rightarrow> string option" where
  "get_attr e k = map_of (attrib e) k"

text \<open>\<^verbatim>\<open>elem.findall(tag)\<close> and \<^verbatim>\<open>elem.find(tag)\<close>: the direct sub-elements with that tag,
  and the first of them.\<close>

definition findall_elem :: "element \<Rightarrow> string \<Rightarrow> element list" where
  "findall_elem e t = filter (\<lambda>c. tag c = t) (subelements e)"

definition find_elem :: "element \<Rightarrow> string \<Rightarrow> element option" where
  "find_elem e t = (case findall_elem e t of [] \<Rightarrow> None | c # _ \<Rightarrow> Some c)"

text \<open>\<^verbatim>\<open>elem.iter()\<close>: the element and all its descendants, in document order.\<close>

fun iter :: "element \<Rightarrow> element list" where
  "iter (Element t a cs) = Element t a cs # concat (map iter cs)"

text \<open>
  \<^verbatim>\<open>root.find(".//mxGraphModel/root")\<close>: the path selects the proper descendants of
  \<open>root\<close> tagged \<open>mxGraphModel\<close>, in document order, then their children tagged \<open>root\<close>;
  \<open>find\<close> returns the first element selected.
\<close>

definition find_graph_model_root :: "element \<Rightarrow> element option" where
  "find_graph_model_root doc =
     (case concat (map (\<lambda>m. findall_elem m ''root'')
                    (filter (\<lambda>e. tag e = ''mxGraphModel'') (concat (map iter (subelements doc)))))
      of [] \<Rightarrow> None | r # _ \<Rightarrow> Some r)"

text \<open>Python's truth value of \<^verbatim>\<open>elem.get(key)\<close>: false for \<open>None\<close> and for the empty string.\<close>

definition truthy :: "string option \<Rightarrow> bool" where
  "truthy v = (case v of None \<Rightarrow> False | Some s \<Rightarrow> s \<noteq> [])"

section \<open>Labels\<close>

text \<open>\<^verbatim>\<open>str.isspace\<close> on the code points below 256, and \<^verbatim>\<open>str.strip()\<close>.\<close>

definition isspace :: "char \<Rightarrow> bool" where
  "isspace c = (let n = (of_char c :: nat) in (9 \<le> n \<and> n \<le> 13) \<or> (28 \<le> n \<and> n \<le> 32) \<or> n = 133 \<or> n = 160)"

definition strip :: "string \<Rightarrow> string" where
  "strip s = rev (dropWhile isspace (rev (dropWhile isspace s)))"

text \<open>\<^verbatim>\<open>s.replace("<br>", " ")\<close>: every occurrence, found from left to right without
  overlap, becomes one space.\<close>

fun replace_br :: "string \<Rightarrow> string" where
  "replace_br [] = []"
| "replace_br (c # cs) =
     (if take 4 (c # cs) = ''<br>'' then CHR '' '' # replace_br (drop 4 (c # cs))
      else c # replace_br cs)"

definition normalize_label :: "string option \<Rightarrow> string" where
  "normalize_label v = replace_br (strip (case v of None \<Rightarrow> [] | Some s \<Rightarrow> s))"

section \<open>Python floats\<close>

text \<open>
  Coordinates are Python floats (IEEE binary64). They are values of a type \<open>'f\<close>, and what
  Python does with them is a parameter of the model, a record \<open>py\<close> of type \<open>'f floats\<close>: the
  builtin \<^verbatim>\<open>float\<close> on a string (\<open>None\<close> stands for \<^verbatim>\<open>ValueError\<close>), the float \<open>0.0\<close> that
  \<^verbatim>\<open>float(0)\<close> returns, the sum and the product with their rounding, and the comparisons
  \<^verbatim>\<open>>=\<close>, \<^verbatim>\<open><=\<close> and \<^verbatim>\<open><\<close>. Nothing is assumed of them in the definitions; a theorem that
  needs a property of the comparisons states it as a hypothesis, and only properties that
  binary64 has, \<open>nan\<close> and the infinities included.
\<close>

record 'f floats =
  fl_parse :: "string \<Rightarrow> 'f option"
  fl_zero :: 'f
  fl_add :: "'f \<Rightarrow> 'f \<Rightarrow> 'f"
  fl_mul :: "'f \<Rightarrow> 'f \<Rightarrow> 'f"
  fl_ge :: "'f \<Rightarrow> 'f \<Rightarrow> bool"
  fl_le :: "'f \<Rightarrow> 'f \<Rightarrow> bool"
  fl_lt :: "'f \<Rightarrow> 'f \<Rightarrow> bool"

section \<open>Geometry\<close>

record 'f geom =
  geo_x :: 'f
  geo_y :: 'f
  geo_width :: 'f
  geo_height :: 'f

text \<open>\<^verbatim>\<open>float(geo.get(key, 0))\<close>: an absent attribute gives the default \<open>0\<close>, and
  \<^verbatim>\<open>float(0)\<close> is \<open>0.0\<close>.\<close>

definition float_attr :: "'f floats \<Rightarrow> element \<Rightarrow> string \<Rightarrow> 'f option" where
  "float_attr py geo k =
     (case get_attr geo k of None \<Rightarrow> Some (fl_zero py) | Some s \<Rightarrow> fl_parse py s)"

definition parse_geometry :: "'f floats \<Rightarrow> element \<Rightarrow> 'f geom option" where
  "parse_geometry py cell =
     (case find_elem cell ''mxGeometry'' of
        None \<Rightarrow> None
      | Some geo \<Rightarrow>
          (case float_attr py geo ''x'' of None \<Rightarrow> None | Some vx \<Rightarrow>
          (case float_attr py geo ''y'' of None \<Rightarrow> None | Some vy \<Rightarrow>
          (case float_attr py geo ''width'' of None \<Rightarrow> None | Some vw \<Rightarrow>
          (case float_attr py geo ''height'' of None \<Rightarrow> None | Some vh \<Rightarrow>
             Some \<lparr>geo_x = vx, geo_y = vy, geo_width = vw, geo_height = vh\<rparr>)))))"

fun is_contained :: "'f floats \<Rightarrow> 'f geom option \<Rightarrow> 'f geom option \<Rightarrow> bool" where
  "is_contained py (Some child_geo) (Some parent_geo) =
     (fl_ge py (geo_x child_geo) (geo_x parent_geo) \<and>
      fl_ge py (geo_y child_geo) (geo_y parent_geo) \<and>
      fl_le py (fl_add py (geo_x child_geo) (geo_width child_geo))
               (fl_add py (geo_x parent_geo) (geo_width parent_geo)) \<and>
      fl_le py (fl_add py (geo_y child_geo) (geo_height child_geo))
               (fl_add py (geo_y parent_geo) (geo_height parent_geo)))"
| "is_contained py _ _ = False"

section \<open>Pass 1: the vertices\<close>

text \<open>
  A node is the dictionary stored in \<open>nodes\<close>. Its \<open>children\<close> list holds references to
  other node dictionaries of \<open>nodes\<close>; the model holds their ids, and \<open>nodes\<close> is the store
  they are looked up in. \<open>nodes\<close> itself is a Python dictionary, modelled as an association
  list in insertion order.
\<close>

record 'f node =
  node_id :: string
  label :: string
  geometry :: "'f geom"
  children :: "string list"

type_synonym 'f nodes = "(string \<times> 'f node) list"

text \<open>The body of the first loop: the node a cell is stored as, if it is stored.\<close>

definition cell_node :: "'f floats \<Rightarrow> element \<Rightarrow> 'f node option" where
  "cell_node py cell =
     (if get_attr cell ''vertex'' = Some ''1'' \<and> truthy (get_attr cell ''value'') then
        (case (get_attr cell ''id'', parse_geometry py cell) of
           (Some nid, Some g) \<Rightarrow>
             if nid \<noteq> [] then
               Some \<lparr>node_id = nid, label = normalize_label (get_attr cell ''value''),
                     geometry = g, children = []\<rparr>
             else None
         | _ \<Rightarrow> None)
      else None)"

definition store_cell :: "'f floats \<Rightarrow> 'f nodes \<Rightarrow> element \<Rightarrow> 'f nodes" where
  "store_cell py nodes cell =
     (case cell_node py cell of None \<Rightarrow> nodes | Some n \<Rightarrow> AList.update (node_id n) n nodes)"

definition extract_vertices :: "'f floats \<Rightarrow> element list \<Rightarrow> 'f nodes" where
  "extract_vertices py cells = foldl (store_cell py) [] cells"

section \<open>Pass 2: containment\<close>

text \<open>
  \<^verbatim>\<open>nodes[k]["geometry"]\<close>. The second loop only looks up keys of \<open>nodes\<close>, so the lookup
  never fails there; for any other key the model has \<open>None\<close>, which \<open>is_contained\<close> rejects.
\<close>

definition geometry_of :: "'f nodes \<Rightarrow> string \<Rightarrow> 'f geom option" where
  "geometry_of nodes k = map_option geometry (map_of nodes k)"

definition area :: "'f floats \<Rightarrow> 'f geom \<Rightarrow> 'f" where
  "area py g = fl_mul py (geo_width g) (geo_height g)"

definition potential_parents :: "'f floats \<Rightarrow> 'f nodes \<Rightarrow> string \<Rightarrow> (string \<times> 'f) list" where
  "potential_parents py nodes child_id =
     concat (map (\<lambda>(parent_id, parent).
                    if child_id = parent_id then []
                    else if is_contained py (geometry_of nodes child_id) (Some (geometry parent))
                         then [(parent_id, area py (geometry parent))]
                         else [])
                 nodes)"

text \<open>\<^verbatim>\<open>min(items, key=lambda item: item[1])\<close> keeps the first item and replaces it by a later
  one only when that one's key is \<^verbatim>\<open><\<close> the key kept.\<close>

fun min_by_area :: "'f floats \<Rightarrow> string \<times> 'f \<Rightarrow> (string \<times> 'f) list \<Rightarrow> string \<times> 'f" where
  "min_by_area py best [] = best"
| "min_by_area py best (item # items) =
     min_by_area py (if fl_lt py (snd item) (snd best) then item else best) items"

definition best_parent_id :: "'f floats \<Rightarrow> 'f nodes \<Rightarrow> string \<Rightarrow> string option" where
  "best_parent_id py nodes child_id =
     (case potential_parents py nodes child_id of
        [] \<Rightarrow> None
      | item # items \<Rightarrow> Some (fst (min_by_area py item items)))"

text \<open>\<^verbatim>\<open>nodes[best_parent_id]["children"].append(nodes[child_id])\<close>. The best parent is a
  key of \<open>nodes\<close>; the branch for a missing key only makes the function total.\<close>

definition append_child :: "string \<Rightarrow> string \<Rightarrow> 'f nodes \<Rightarrow> 'f nodes" where
  "append_child parent_id child_id nodes =
     (case map_of nodes parent_id of
        None \<Rightarrow> nodes
      | Some p \<Rightarrow> AList.update parent_id (p\<lparr>children := children p @ [child_id]\<rparr>) nodes)"

definition resolve_child :: "'f floats \<Rightarrow> 'f nodes \<Rightarrow> string \<Rightarrow> 'f nodes" where
  "resolve_child py nodes child_id =
     (case best_parent_id py nodes child_id of
        None \<Rightarrow> nodes
      | Some parent_id \<Rightarrow> append_child parent_id child_id nodes)"

definition resolve_containment :: "'f floats \<Rightarrow> 'f nodes \<Rightarrow> 'f nodes" where
  "resolve_containment py nodes = foldl (resolve_child py) nodes (map fst nodes)"

section \<open>The forest\<close>

definition child_ids :: "'f nodes \<Rightarrow> string list" where
  "child_ids nodes = concat (map (\<lambda>(k, n). children n) nodes)"

text \<open>The roots, as the ids of the node dictionaries that \<open>hierarchical_tree\<close> lists.\<close>

definition hierarchical_tree :: "'f nodes \<Rightarrow> string list" where
  "hierarchical_tree nodes = filter (\<lambda>k. k \<notin> set (child_ids nodes)) (map fst nodes)"

text \<open>
  How the function can end without an output document: it returns \<open>None\<close>, or an
  exception leaves it.
\<close>

datatype failure = ReturnsNone | AttributeError | KeyError | ValueError

text \<open>
  \<open>clean_tree\<close> deletes the \<open>geometry\<close> key of every node dictionary it reaches.
  \<open>deleted\<close> lists the ids of the dictionaries that have lost the key; deleting it a second
  time raises \<^verbatim>\<open>KeyError\<close>. A \<open>children\<close> list holds references, so the lookup of a child
  cannot fail in the program; the model gives that branch the same error.
\<close>

function clean_tree :: "'f nodes \<Rightarrow> string list \<Rightarrow> string list \<Rightarrow> failure + string list" where
  "clean_tree nodes deleted [] = Inr deleted"
| "clean_tree nodes deleted (i # ids) =
     (case map_of nodes i of
        None \<Rightarrow> Inl KeyError
      | Some n \<Rightarrow>
          if i \<in> set deleted then Inl KeyError
          else if children n \<noteq> [] then
            (case clean_tree nodes (i # deleted) (children n) of
               Inl e \<Rightarrow> Inl e
             | Inr deleted' \<Rightarrow> clean_tree nodes deleted' ids)
          else clean_tree nodes (i # deleted) ids)"
  by pat_completeness auto
termination
proof (relation "measures [\<lambda>(nodes, deleted, ids). card (fst ` set nodes - set deleted),
                           \<lambda>(nodes, deleted, ids). length ids]", goal_cases)
  case 1
  then show ?case by simp
next
  case (2 nodes deleted i ids n)
  then have "i \<in> fst ` set nodes" by (metis map_of_eq_None_iff option.distinct(1))
  with 2 have "fst ` set nodes - set (i # deleted) \<subset> fst ` set nodes - set deleted" by auto
  then have "card (fst ` set nodes - set (i # deleted)) < card (fst ` set nodes - set deleted)"
    by (intro psubset_card_mono) auto
  then show ?case by simp
next
  case (3 nodes deleted i ids n d')
  have grows: "set deleted \<subseteq> set deleted'"
    if "clean_tree_dom (nodes, deleted, ids)" "clean_tree nodes deleted ids = Inr deleted'"
    for nodes deleted ids deleted'
    using that
  proof (induction nodes deleted ids arbitrary: deleted' rule: clean_tree.pinduct)
    case (1 nodes deleted)
    then show ?case by (simp add: clean_tree.psimps)
  next
    case (2 nodes deleted i ids)
    from "2.prems" "2.hyps" obtain n where n: "map_of nodes i = Some n" and ni: "i \<notin> set deleted"
      by (auto simp: clean_tree.psimps split: option.splits if_splits)
    show ?case
    proof (cases "children n = []")
      case True
      with "2.prems" "2.hyps" n ni have "clean_tree nodes (i # deleted) ids = Inr deleted'"
        by (simp add: clean_tree.psimps)
      from "2.IH"(3)[OF n ni _ this] True show ?thesis by auto
    next
      case False
      with "2.prems" "2.hyps" n ni obtain d1 where
        d1: "clean_tree nodes (i # deleted) (children n) = Inr d1"
        and d2: "clean_tree nodes d1 ids = Inr deleted'"
        by (auto simp: clean_tree.psimps split: sum.splits)
      from "2.IH"(1)[OF n ni False d1] have "set (i # deleted) \<subseteq> set d1" .
      moreover from "2.IH"(2)[OF n ni False d1 d2] have "set d1 \<subseteq> set deleted'" .
      ultimately show ?thesis by auto
    qed
  qed
  from 3 have "i \<in> fst ` set nodes" by (metis map_of_eq_None_iff option.distinct(1))
  moreover from 3 grows have "set (i # deleted) \<subseteq> set d'" by blast
  ultimately have "fst ` set nodes - set d' \<subset> fst ` set nodes - set deleted" using 3 by auto
  then have "card (fst ` set nodes - set d') < card (fst ` set nodes - set deleted)"
    by (intro psubset_card_mono) auto
  then show ?case by simp
next
  case (4 nodes deleted i ids n)
  then have "i \<in> fst ` set nodes" by (metis map_of_eq_None_iff option.distinct(1))
  with 4 have "fst ` set nodes - set (i # deleted) \<subset> fst ` set nodes - set deleted" by auto
  then have "card (fst ` set nodes - set (i # deleted)) < card (fst ` set nodes - set deleted)"
    by (intro psubset_card_mono) auto
  then show ?case by simp
qed

text \<open>
  An emitted node: what \<^verbatim>\<open>json.dumps\<close> writes for a node dictionary, namely its id, its
  label, its geometry when the key is still there, and its children.
\<close>

datatype 'f tree = Tree (tree_id: string) (tree_label: string) (tree_geometry: "'f geom option")
  (tree_children: "'f tree list")

fun sequence :: "(failure + 'a) list \<Rightarrow> failure + 'a list" where
  "sequence [] = Inr []"
| "sequence (r # rs) =
     (case r of
        Inl e \<Rightarrow> Inl e
      | Inr v \<Rightarrow> (case sequence rs of Inl e \<Rightarrow> Inl e | Inr vs \<Rightarrow> Inr (v # vs)))"

text \<open>
  \<^verbatim>\<open>json.dumps\<close> follows the references of the \<open>children\<close> lists. \<open>markers\<close> are the
  dictionaries being written on the way down from the root; meeting one of them again
  raises \<^verbatim>\<open>ValueError\<close> (circular reference).
\<close>

function dumps_node :: "'f nodes \<Rightarrow> string list \<Rightarrow> string list \<Rightarrow> string \<Rightarrow> failure + 'f tree" where
  "dumps_node nodes deleted markers i =
     (case map_of nodes i of
        None \<Rightarrow> Inl KeyError
      | Some n \<Rightarrow>
          if i \<in> set markers then Inl ValueError
          else
            (case sequence (map (dumps_node nodes deleted (i # markers)) (children n)) of
               Inl e \<Rightarrow> Inl e
             | Inr ts \<Rightarrow>
                 Inr (Tree (node_id n) (label n)
                        (if i \<in> set deleted then None else Some (geometry n)) ts)))"
  by pat_completeness auto
termination
proof (relation "measure (\<lambda>(nodes, deleted, markers, i). card (fst ` set nodes - set markers))",
    goal_cases)
  case 1
  then show ?case by simp
next
  case (2 nodes deleted markers i n c)
  then have "i \<in> fst ` set nodes" by (metis map_of_eq_None_iff option.distinct(1))
  with 2 have "fst ` set nodes - set (i # markers) \<subset> fst ` set nodes - set markers" by auto
  then have "card (fst ` set nodes - set (i # markers)) < card (fst ` set nodes - set markers)"
    by (intro psubset_card_mono) auto
  then show ?case by simp
qed

section \<open>Pass 3: the connections\<close>

record connection =
  source_id :: string
  source_label :: string
  target_id :: string
  target_label :: string

text \<open>The body of the third loop: the connection a cell is emitted as, if it is emitted.\<close>

definition cell_connection :: "'f nodes \<Rightarrow> element \<Rightarrow> connection option" where
  "cell_connection nodes cell =
     (if get_attr cell ''edge'' = Some ''1'' then
        (case (get_attr cell ''source'', get_attr cell ''target'') of
           (Some s, Some t) \<Rightarrow>
             (case (map_of nodes s, map_of nodes t) of
                (Some ns, Some nt) \<Rightarrow>
                  Some \<lparr>source_id = s, source_label = label ns,
                        target_id = t, target_label = label nt\<rparr>
              | _ \<Rightarrow> None)
         | _ \<Rightarrow> None)
      else None)"

definition extract_edges :: "'f nodes \<Rightarrow> element list \<Rightarrow> connection list" where
  "extract_edges nodes cells = List.map_filter (cell_connection nodes) cells"

section \<open>The converter\<close>

record 'f output_schema =
  schema_version :: string
  diagram_name :: string
  architecture :: "'f tree list"
  connections :: "connection list"

text \<open>What \<^verbatim>\<open>ET.parse\<close> makes of the file: one of the two exceptions the function
  catches, or the root element of the document.\<close>

datatype xml_file = FileNotFound | NotWellFormed | Document element

text \<open>\<^verbatim>\<open>root.find("diagram").get("name", "Untitled")\<close>; \<open>find\<close> gives \<open>None\<close> when the root
  has no \<open>diagram\<close> child, and \<^verbatim>\<open>None.get\<close> raises \<^verbatim>\<open>AttributeError\<close>.\<close>

definition diagram_name_of :: "element \<Rightarrow> failure + string" where
  "diagram_name_of doc =
     (case find_elem doc ''diagram'' of
        None \<Rightarrow> Inl AttributeError
      | Some d \<Rightarrow> (case get_attr d ''name'' of None \<Rightarrow> Inr ''Untitled'' | Some s \<Rightarrow> Inr s))"

definition parse_drawio_xml_v3 :: "'f floats \<Rightarrow> xml_file \<Rightarrow> failure + 'f output_schema" where
  "parse_drawio_xml_v3 py file =
     (case file of
        FileNotFound \<Rightarrow> Inl ReturnsNone
      | NotWellFormed \<Rightarrow> Inl ReturnsNone
      | Document doc \<Rightarrow>
          (case find_graph_model_root doc of
             None \<Rightarrow> Inl ReturnsNone
           | Some graph_model_root \<Rightarrow>
               (let cells = findall_elem graph_model_root ''mxCell'';
                    nodes = resolve_containment py (extract_vertices py cells);
                    roots = hierarchical_tree nodes
                in case clean_tree nodes [] roots of
                     Inl e \<Rightarrow> Inl e
                   | Inr deleted \<Rightarrow>
                       (let edges = extract_edges nodes cells
                        in case diagram_name_of doc of
                             Inl e \<Rightarrow> Inl e
                           | Inr name \<Rightarrow>
                               (case sequence (map (dumps_node nodes deleted []) roots) of
                                  Inl e \<Rightarrow> Inl e
                                | Inr forest \<Rightarrow>
                                    Inr \<lparr>schema_version = ''3.0'', diagram_name = name,
                                         architecture = forest, connections = edges\<rparr>)))))"

section \<open>Auxiliary notions for the proofs\<close>

text \<open>What the second pass never changes of the store: keys, ids, labels and geometry.\<close>

definition skeleton :: "'f nodes \<Rightarrow> (string \<times> string \<times> string \<times> 'f geom) list" where
  "skeleton S = map (\<lambda>(k, n). (k, node_id n, label n, geometry n)) S"

text \<open>The \<open>children\<close> list of the node stored under a key.\<close>

definition children_of :: "'f nodes \<Rightarrow> string \<Rightarrow> string list" where
  "children_of S k = (case map_of S k of None \<Rightarrow> [] | Some n \<Rightarrow> children n)"

text \<open>
  The containment pass gives every element at most one parent. \<open>rooted par xs\<close> says that
  \<open>xs\<close> lists an element, its parent, the parent of that, and so on up to an element
  without parent.
\<close>

fun rooted :: "(string \<Rightarrow> string option) \<Rightarrow> string list \<Rightarrow> bool" where
  "rooted par [] = False"
| "rooted par [r] = (par r = None)"
| "rooted par (c # p # ps) = (par c = Some p \<and> rooted par (p # ps))"

text \<open>The elements whose way up to a root passes through \<open>x\<close>.\<close>

definition subtree :: "(string \<Rightarrow> string option) \<Rightarrow> string \<Rightarrow> string set" where
  "subtree par x = {y. \<exists>xs. rooted par (y # xs) \<and> x \<in> set (y # xs)}"

text \<open>A store whose \<open>children\<close> lists are exactly what the parent assignment \<open>par\<close> says.\<close>

definition linked :: "(string \<Rightarrow> string option) \<Rightarrow> 'f nodes \<Rightarrow> bool" where
  "linked par S \<longleftrightarrow>
     distinct (map fst S) \<and>
     (\<forall>c p. par c = Some p \<longrightarrow> c \<in> fst ` set S \<and> p \<in> fst ` set S) \<and>
     (\<forall>k. children_of S k = filter (\<lambda>c. par c = Some k) (map fst S))"

text \<open>The id, the label and the geometry of every node of an emitted tree.\<close>

fun tree_nodes :: "'f tree \<Rightarrow> (string \<times> string \<times> 'f geom option) list" where
  "tree_nodes (Tree i l g ts) = (i, l, g) # concat (map tree_nodes ts)"

section \<open>Example inputs\<close>

text \<open>
  Stand-ins for Python's floats in the examples. The examples use integers of at most four
  digits only; on these, and on their sums and products, binary64 is exact, so Python
  computes what the real numbers give. \<open>float_digits\<close> reads a non-empty string of ASCII
  digits as that integer and rejects every other string; it is applied only to the strings
  of the examples.
\<close>

definition float_digits :: "string \<Rightarrow> real option" where
  "float_digits s =
     (if s \<noteq> [] \<and> list_all (\<lambda>c. 48 \<le> (of_char c :: nat) \<and> (of_char c :: nat) \<le> 57) s
      then Some (real (foldl (\<lambda>a c. 10 * a + (of_char c - 48)) 0 s)) else None)"

definition exact_float :: "real floats" where
  "exact_float =
     \<lparr>fl_parse = float_digits, fl_zero = 0, fl_add = (\<lambda>a b. a + b), fl_mul = (\<lambda>a b. a * b),
      fl_ge = (\<lambda>a b. b \<le> a), fl_le = (\<lambda>a b. a \<le> b), fl_lt = (\<lambda>a b. a < b)\<rparr>"

text \<open>A vertex cell, an edge cell and a file around a list of cells, as Draw.io writes them.\<close>

definition vertex_cell :: "string \<Rightarrow> string \<Rightarrow> string \<Rightarrow> string \<Rightarrow> string \<Rightarrow> string \<Rightarrow> element" where
  "vertex_cell i v gx gy gw gh =
     Element ''mxCell'' [(''id'', i), (''value'', v), (''vertex'', ''1'')]
       [Element ''mxGeometry'' [(''x'', gx), (''y'', gy), (''width'', gw), (''height'', gh)] []]"

definition edge_cell :: "string \<Rightarrow> string \<Rightarrow> string \<Rightarrow> element" where
  "edge_cell i s t =
     Element ''mxCell'' [(''id'', i), (''edge'', ''1''), (''source'', s), (''target'', t)] []"

definition mxfile :: "(string \<times> string) list \<Rightarrow> element list \<Rightarrow> element" where
  "mxfile dattrs cells =
     Element ''mxfile'' []
       [Element ''diagram'' dattrs [Element ''mxGraphModel'' [] [Element ''root'' [] cells]]]"

text \<open>The end-to-end example: \<open>B\<close> inside \<open>A\<close>, \<open>C\<close> apart, an edge from \<open>B\<close> to \<open>C\<close> and one
  to a cell that does not exist.\<close>

definition example_cells :: "element list" where
  "example_cells =
     [vertex_cell ''A'' ''Box A'' ''0'' ''0'' ''400'' ''400'',
      vertex_cell ''B'' ''Box B'' ''20'' ''20'' ''150'' ''150'',
      vertex_cell ''C'' ''Box C'' ''1000'' ''1000'' ''50'' ''50'',
      edge_cell ''e1'' ''B'' ''C'',
      edge_cell ''e2'' ''B'' ''X'']"

section \<open>Labels: properties\<close>

lemma strip_ends:
  "strip s = [] \<or> (\<not> isspace (hd (strip s)) \<and> \<not> isspace (last (strip s)))"
proof (cases "strip s = []")
  case True
  then show ?thesis by simp
next
  case False
  define t where "t = dropWhile isspace s"
  define u where "u = dropWhile isspace (rev t)"
  have su: "strip s = rev u" by (simp add: strip_def t_def u_def)
  with False have u: "u \<noteq> []" by simp
  then have hu: "\<not> isspace (hd u)" unfolding u_def by (rule hd_dropWhile)
  from u have rt: "rev t \<noteq> []" unfolding u_def by auto
  then have t: "t \<noteq> []" by simp
  then have ht: "\<not> isspace (hd t)" unfolding t_def by (rule hd_dropWhile)
  have "rev t = takeWhile isspace (rev t) @ u" by (simp add: u_def)
  with u have "last (rev t) = last u" by (metis last_appendR)
  with t have "last u = hd t" by (simp add: last_rev)
  with hu ht u su show ?thesis by (simp add: hd_rev last_rev)
qed

lemma replace_br_Nil_iff: "replace_br s = [] \<longleftrightarrow> s = []"
  by (cases s) auto

lemma replace_br_hd:
  "s \<noteq> [] \<Longrightarrow> take 4 s \<noteq> ''<br>'' \<Longrightarrow> hd (replace_br s) = hd s"
  by (cases s) auto

lemma replace_br_last:
  "s \<noteq> [] \<Longrightarrow> \<not> suffix ''<br>'' s \<Longrightarrow> last (replace_br s) = last s"
proof (induction s rule: replace_br.induct)
  case 1
  then show ?case by simp
next
  case (2 c cs)
  show ?case
  proof (cases "take 4 (c # cs) = ''<br>''")
    case True
    define r where "r = drop 4 (c # cs)"
    have split: "c # cs = ''<br>'' @ r" using True unfolding r_def by (metis append_take_drop_id)
    with "2.prems" have r: "r \<noteq> []" by (auto simp: suffix_def)
    from split "2.prems" have ns: "\<not> suffix ''<br>'' r"
      by (metis suffix_appendI)
    from "2.IH"(1)[OF True] r ns have "last (replace_br r) = last r" by (simp add: r_def)
    moreover have "replace_br (c # cs) = CHR '' '' # replace_br r" using True by (simp add: r_def)
    moreover have "last (c # cs) = last r" using split r by (metis last_appendR)
    ultimately show ?thesis using r by (simp add: replace_br_Nil_iff)
  next
    case False
    show ?thesis
    proof (cases "cs = []")
      case True
      have "replace_br (c # cs) = c # replace_br cs" using False by simp
      with True show ?thesis by (simp add: replace_br_Nil_iff del: replace_br.simps)
    next
      case ne: False
      from "2.prems" have "\<not> suffix ''<br>'' cs" by (metis suffix_ConsI)
      with "2.IH"(2)[OF False ne] have "last (replace_br cs) = last cs" by simp
      moreover have "replace_br (c # cs) = c # replace_br cs" using False by simp
      ultimately show ?thesis using ne by (simp add: replace_br_Nil_iff del: replace_br.simps)
    qed
  qed
qed

section \<open>The passes: properties\<close>

subsection \<open>Pass 1\<close>

lemma cell_node_SomeD:
  assumes "cell_node py c = Some n"
  shows "get_attr c ''vertex'' = Some ''1''" "truthy (get_attr c ''value'')"
    "get_attr c ''id'' = Some (node_id n)" "node_id n \<noteq> []"
    "parse_geometry py c = Some (geometry n)" "children n = []"
    "label n = normalize_label (get_attr c ''value'')"
  using assms by (auto simp: cell_node_def split: if_splits option.splits)

lemma set_update_subset: "set (AList.update k v al) \<subseteq> insert (k, v) (set al)"
  by (induction al) auto

lemma store_cells_distinct:
  "distinct (map fst S) \<Longrightarrow> distinct (map fst (foldl (store_cell py) S cells))"
  by (induction cells arbitrary: S) (auto simp: store_cell_def distinct_update split: option.splits)

lemma store_cells_members:
  "(k, n) \<in> set (foldl (store_cell py) S cells) \<Longrightarrow>
   (k, n) \<in> set S \<or> (\<exists>c \<in> set cells. cell_node py c = Some n \<and> k = node_id n)"
proof (induction cells arbitrary: S)
  case Nil
  then show ?case by simp
next
  case (Cons c cells)
  from Cons.IH[of "store_cell py S c"] Cons.prems
  consider "(k, n) \<in> set (store_cell py S c)"
    | "\<exists>c \<in> set cells. cell_node py c = Some n \<and> k = node_id n" by auto
  then show ?case
  proof cases
    case 1
    then show ?thesis using set_update_subset[of _ _ S]
      by (fastforce simp: store_cell_def split: option.splits)
  next
    case 2
    then show ?thesis by auto
  qed
qed

lemma store_cells_keys:
  "fst ` set (foldl (store_cell py) S cells) =
   fst ` set S \<union> {node_id n | c n. c \<in> set cells \<and> cell_node py c = Some n}"
proof (induction cells arbitrary: S)
  case Nil
  then show ?case by simp
next
  case (Cons c cells)
  show ?case
  proof (cases "cell_node py c")
    case None
    then show ?thesis using Cons.IH[of S] by (auto simp: store_cell_def)
  next
    case (Some n)
    then have "fst ` set (store_cell py S c) = insert (node_id n) (fst ` set S)"
      by (simp add: store_cell_def dom_update)
    with Some show ?thesis using Cons.IH[of "store_cell py S c"] by auto
  qed
qed

lemma extract_vertices_distinct: "distinct (map fst (extract_vertices py cells))"
  unfolding extract_vertices_def by (rule store_cells_distinct) simp

lemma extract_vertices_members:
  "(k, n) \<in> set (extract_vertices py cells) \<Longrightarrow>
   \<exists>c \<in> set cells. cell_node py c = Some n \<and> k = node_id n"
  unfolding extract_vertices_def using store_cells_members[of k n py "[]" cells] by simp

lemma extract_vertices_keys:
  "fst ` set (extract_vertices py cells) =
   {node_id n | c n. c \<in> set cells \<and> cell_node py c = Some n}"
  unfolding extract_vertices_def by (simp add: store_cells_keys)

lemma extract_vertices_lookup:
  "map_of (extract_vertices py cells) k = Some n \<Longrightarrow>
   node_id n = k \<and> children n = [] \<and> (\<exists>c \<in> set cells. cell_node py c = Some n)"
  using extract_vertices_members[of k n py cells] cell_node_SomeD(6)
  by (fastforce dest: map_of_SomeD)

subsection \<open>Pass 2\<close>

lemma map_fst_skeleton: "map fst (skeleton S) = map fst S"
  by (induction S) (auto simp: skeleton_def)

lemma map_of_skeleton:
  "map_of (skeleton S) k = map_option (\<lambda>n. (node_id n, label n, geometry n)) (map_of S k)"
  by (induction S) (auto simp: skeleton_def)

lemma geometry_of_skeleton:
  "geometry_of S k = map_option (\<lambda>(i, l, g). g) (map_of (skeleton S) k)"
  by (simp add: geometry_of_def map_of_skeleton option.map_comp comp_def)

lemma key_iff: "k \<in> fst ` set S \<longleftrightarrow> (\<exists>n. map_of S k = Some n)"
  by (metis map_of_eq_None_iff not_Some_eq)

lemma candidates_skeleton:
  "concat (map (\<lambda>(p, n). if c = p then []
                  else if is_contained py cg (Some (geometry n)) then [(p, area py (geometry n))]
                  else []) S) =
   concat (map (\<lambda>(p, i, l, g). if c = p then []
                  else if is_contained py cg (Some g) then [(p, area py g)] else []) (skeleton S))"
  by (induction S) (auto simp: skeleton_def)

lemma potential_parents_skeleton:
  "potential_parents py S c =
   concat (map (\<lambda>(p, i, l, g).
                  if c = p then []
                  else if is_contained py (map_option (\<lambda>(i, l, g). g) (map_of (skeleton S) c)) (Some g)
                       then [(p, area py g)] else [])
               (skeleton S))"
  unfolding potential_parents_def geometry_of_skeleton by (rule candidates_skeleton)

lemma best_parent_id_skeleton:
  assumes "skeleton S = skeleton T"
  shows "best_parent_id py S c = best_parent_id py T c"
proof -
  have "potential_parents py S c = potential_parents py T c"
    unfolding potential_parents_skeleton assms ..
  then show ?thesis by (simp add: best_parent_id_def)
qed

lemma skeleton_update:
  "map_of S p = Some n \<Longrightarrow> skeleton (AList.update p (n\<lparr>children := cs\<rparr>) S) = skeleton S"
  by (induction S) (auto simp: skeleton_def)

lemma skeleton_append_child: "skeleton (append_child p c S) = skeleton S"
  by (auto simp: append_child_def skeleton_update split: option.splits)

lemma skeleton_resolve_child: "skeleton (resolve_child py S c) = skeleton S"
  by (auto simp: resolve_child_def skeleton_append_child split: option.splits)

lemma skeleton_resolve_fold: "skeleton (foldl (resolve_child py) S ks) = skeleton S"
  by (induction ks arbitrary: S) (auto simp: skeleton_resolve_child)

lemma skeleton_resolve_containment: "skeleton (resolve_containment py S) = skeleton S"
  by (simp add: resolve_containment_def skeleton_resolve_fold)

lemma keys_resolve_containment: "map fst (resolve_containment py S) = map fst S"
  by (metis map_fst_skeleton skeleton_resolve_containment)

lemma lookup_resolve_containment:
  "map_option (\<lambda>n. (node_id n, label n, geometry n)) (map_of (resolve_containment py S) k) =
   map_option (\<lambda>n. (node_id n, label n, geometry n)) (map_of S k)"
  by (metis map_of_skeleton skeleton_resolve_containment)

lemma potential_parents_mem:
  "(p, a) \<in> set (potential_parents py S c) \<longleftrightarrow>
   (\<exists>n. (p, n) \<in> set S \<and> p \<noteq> c \<and> is_contained py (geometry_of S c) (Some (geometry n)) \<and>
        a = area py (geometry n))"
proof -
  have "(p, a) \<in> set (concat (map (\<lambda>(q, n). if c = q then []
                  else if is_contained py cg (Some (geometry n)) then [(q, area py (geometry n))]
                  else []) S)) \<longleftrightarrow>
        (\<exists>n. (p, n) \<in> set S \<and> p \<noteq> c \<and> is_contained py cg (Some (geometry n)) \<and>
             a = area py (geometry n))" for cg
    by (induction S) auto
  then show ?thesis by (simp add: potential_parents_def)
qed

lemma min_by_area_mem: "min_by_area py b xs \<in> set (b # xs)"
  by (induction xs arbitrary: b) (auto simp del: min_by_area.simps(2) simp add: min_by_area.simps(2))



lemma best_parent_id_SomeD:
  assumes "best_parent_id py S c = Some p" and "distinct (map fst S)"
  shows "p \<noteq> c"
    and "\<exists>n. map_of S p = Some n \<and> is_contained py (geometry_of S c) (Some (geometry n))"
proof -
  from assms(1) obtain item items where pp: "potential_parents py S c = item # items"
    and p: "p = fst (min_by_area py item items)"
    by (auto simp: best_parent_id_def split: list.splits)
  define best where "best = min_by_area py item items"
  have "best \<in> set (potential_parents py S c)" unfolding best_def pp by (rule min_by_area_mem)
  then have "(p, snd best) \<in> set (potential_parents py S c)" by (simp add: p best_def)
  then obtain n where n: "(p, n) \<in> set S" "p \<noteq> c"
    "is_contained py (geometry_of S c) (Some (geometry n))" "snd best = area py (geometry n)"
    by (auto simp: potential_parents_mem)
  from n(2) show "p \<noteq> c" .
  from n(1) assms(2) have lk: "map_of S p = Some n" by simp
  with n(3) show "\<exists>n. map_of S p = Some n \<and> is_contained py (geometry_of S c) (Some (geometry n))"
    by blast
qed



lemma best_parent_id_child_key:
  "best_parent_id py S c = Some p \<Longrightarrow> c \<in> fst ` set S"
proof (rule ccontr)
  assume bp: "best_parent_id py S c = Some p" and "c \<notin> fst ` set S"
  then have "geometry_of S c = None" by (simp add: geometry_of_def map_of_eq_None_iff)
  then have "potential_parents py S c = []"
    by (auto simp: potential_parents_def)
  with bp show False by (simp add: best_parent_id_def)
qed

lemma children_of_append_child:
  "children_of (append_child p c S) k =
   (if k = p \<and> p \<in> fst ` set S then children_of S k @ [c] else children_of S k)"
  by (auto simp: children_of_def append_child_def update_conv' key_iff
      split: option.splits)

lemma children_of_resolve_child:
  assumes "distinct (map fst S)"
  shows "children_of (resolve_child py S c) k =
   children_of S k @ (if best_parent_id py S c = Some k then [c] else [])"
proof (cases "best_parent_id py S c")
  case None
  then show ?thesis by (simp add: resolve_child_def)
next
  case (Some p)
  from best_parent_id_SomeD(2)[OF Some assms] have "p \<in> fst ` set S"
    by (metis map_of_eq_None_iff option.distinct(1))
  with Some show ?thesis by (auto simp: resolve_child_def children_of_append_child)
qed

lemma children_of_resolve_fold:
  assumes "distinct (map fst S)"
  shows "children_of (foldl (resolve_child py) S ks) k =
   children_of S k @ filter (\<lambda>c. best_parent_id py S c = Some k) ks"
  using assms
proof (induction ks arbitrary: S)
  case Nil
  then show ?case by simp
next
  case (Cons c ks)
  have sk: "skeleton (resolve_child py S c) = skeleton S" by (rule skeleton_resolve_child)
  then have d: "distinct (map fst (resolve_child py S c))"
    using Cons.prems by (metis map_fst_skeleton)
  have bp: "best_parent_id py (resolve_child py S c) x = best_parent_id py S x" for x
    using sk by (rule best_parent_id_skeleton)
  from Cons.IH[OF d] show ?case
    by (simp add: bp children_of_resolve_child[OF Cons.prems])
qed

lemma children_of_resolve_containment:
  assumes "distinct (map fst S)"
  shows "children_of (resolve_containment py S) k =
   children_of S k @ filter (\<lambda>c. best_parent_id py S c = Some k) (map fst S)"
  unfolding resolve_containment_def by (rule children_of_resolve_fold[OF assms])

section \<open>Further properties of the passes\<close>


lemma parse_geometry_Some_iff:
  "parse_geometry py cell = Some g \<longleftrightarrow>
   (\<exists>geo. find_elem cell ''mxGeometry'' = Some geo \<and>
      float_attr py geo ''x'' = Some (geo_x g) \<and>
      float_attr py geo ''y'' = Some (geo_y g) \<and>
      float_attr py geo ''width'' = Some (geo_width g) \<and>
      float_attr py geo ''height'' = Some (geo_height g))"
  by (cases g) (auto simp: parse_geometry_def split: option.splits)

lemma float_attr_Some_iff:
  "float_attr py geo k = Some v \<longleftrightarrow>
   (get_attr geo k = None \<and> v = fl_zero py) \<or> (\<exists>s. get_attr geo k = Some s \<and> fl_parse py s = Some v)"
  by (auto simp: float_attr_def split: option.splits)

lemma parse_geometry_accepts:
  "parse_geometry py cell \<noteq> None \<longleftrightarrow>
   (\<exists>geo. find_elem cell ''mxGeometry'' = Some geo \<and>
      (\<forall>k \<in> {''x'', ''y'', ''width'', ''height''}. \<forall>s. get_attr geo k = Some s \<longrightarrow> fl_parse py s \<noteq> None))"
  by (auto simp: parse_geometry_def float_attr_def split: option.splits)

lemma cell_node_accepts:
  "cell_node py cell \<noteq> None \<longleftrightarrow>
     get_attr cell ''vertex'' = Some ''1'' \<and> truthy (get_attr cell ''value'') \<and>
     truthy (get_attr cell ''id'') \<and> parse_geometry py cell \<noteq> None"
  by (auto simp: cell_node_def truthy_def split: option.splits)

lemma extract_vertices_key_iff:
  "k \<in> fst ` set (extract_vertices py cells) \<longleftrightarrow>
   (\<exists>c \<in> set cells. cell_node py c \<noteq> None \<and> get_attr c ''id'' = Some k)"
proof -
  have "k \<in> fst ` set (extract_vertices py cells) \<longleftrightarrow>
        (\<exists>c n. c \<in> set cells \<and> cell_node py c = Some n \<and> k = node_id n)"
    unfolding extract_vertices_keys by auto
  also have "\<dots> \<longleftrightarrow> (\<exists>c \<in> set cells. cell_node py c \<noteq> None \<and> get_attr c ''id'' = Some k)"
    using cell_node_SomeD(3) by fastforce
  finally show ?thesis .
qed

lemma cell_connection_SomeD:
  assumes "cell_connection nodes cell = Some conn"
  shows "get_attr cell ''edge'' = Some ''1''"
    and "get_attr cell ''source'' = Some (source_id conn)"
    and "get_attr cell ''target'' = Some (target_id conn)"
    and "map_option label (map_of nodes (source_id conn)) = Some (source_label conn)"
    and "map_option label (map_of nodes (target_id conn)) = Some (target_label conn)"
  using assms by (auto simp: cell_connection_def split: if_splits option.splits)

lemma cell_connection_labels:
  "cell_connection nodes cell =
     (if get_attr cell ''edge'' = Some ''1'' then
        (case (get_attr cell ''source'', get_attr cell ''target'') of
           (Some s, Some t) \<Rightarrow>
             (case (map_option label (map_of nodes s), map_option label (map_of nodes t)) of
                (Some ls, Some lt) \<Rightarrow>
                  Some \<lparr>source_id = s, source_label = ls, target_id = t, target_label = lt\<rparr>
              | _ \<Rightarrow> None)
         | _ \<Rightarrow> None)
      else None)"
  by (auto simp: cell_connection_def split: option.splits)

lemma label_resolve_containment:
  "map_option label (map_of (resolve_containment py S) k) = map_option label (map_of S k)"
  using lookup_resolve_containment[of py S k]
  by (cases "map_of (resolve_containment py S) k"; cases "map_of S k") auto

lemma cell_connection_resolved:
  "cell_connection (resolve_containment py S) cell = cell_connection S cell"
  unfolding cell_connection_labels label_resolve_containment ..

lemma extract_edges_resolved:
  "extract_edges (resolve_containment py S) cells = extract_edges S cells"
proof -
  have "cell_connection (resolve_containment py S) = cell_connection S"
    by (rule ext) (rule cell_connection_resolved)
  then show ?thesis by (simp add: extract_edges_def)
qed

lemma diagram_name_of_found:
  "find_elem doc ''diagram'' = Some d \<Longrightarrow>
   diagram_name_of doc = Inr (case get_attr d ''name'' of None \<Rightarrow> ''Untitled'' | Some s \<Rightarrow> s)"
  by (simp add: diagram_name_of_def split: option.splits)

section \<open>The forest is built without failure\<close>

lemma rooted_unique: "rooted par (x # xs) \<Longrightarrow> rooted par (x # ys) \<Longrightarrow> xs = ys"
proof (induction xs arbitrary: x ys)
  case Nil
  then show ?case by (cases ys) auto
next
  case (Cons a xs)
  then show ?case by (cases ys) auto
qed

lemma rooted_suffix: "rooted par (us @ y # ys) \<Longrightarrow> rooted par (y # ys)"
proof (induction us)
  case Nil
  then show ?case by simp
next
  case (Cons u us)
  then show ?case by (cases "us @ y # ys") auto
qed

lemma rooted_next:
  assumes "rooted par (us @ c # vs)" and "par c = Some p"
  shows "\<exists>ws. vs = p # ws"
proof -
  from rooted_suffix[OF assms(1)] have "rooted par (c # vs)" .
  with assms(2) show ?thesis by (cases vs) auto
qed

lemma rooted_last:
  assumes "rooted par (us @ c # vs)" and "par c = None"
  shows "vs = []"
proof -
  from rooted_suffix[OF assms(1)] have "rooted par (c # vs)" .
  with assms(2) show ?thesis by (cases vs) auto
qed

lemma rooted_distinct: "rooted par xs \<Longrightarrow> distinct xs"
proof (induction xs)
  case Nil
  then show ?case by simp
next
  case (Cons x xs)
  have dx: "distinct xs"
  proof (cases xs)
    case Nil
    then show ?thesis by simp
  next
    case (Cons p ps)
    with Cons.prems have "rooted par xs" by simp
    then show ?thesis by (rule Cons.IH)
  qed
  have "x \<notin> set xs"
  proof
    assume "x \<in> set xs"
    then obtain us vs where s: "xs = us @ x # vs" by (auto dest: split_list)
    with Cons.prems have "rooted par ((x # us) @ x # vs)" by simp
    then have "rooted par (x # vs)" by (rule rooted_suffix)
    with Cons.prems have "xs = vs" by (rule rooted_unique)
    with s show False by simp
  qed
  with dx show ?case by simp
qed

lemma takeWhile_upto: "i \<notin> set as \<Longrightarrow> takeWhile (\<lambda>z. z \<noteq> i) (as @ i # bs) = as"
  by (induction as) auto

lemma distinct_split_unique:
  assumes "distinct zs" and "zs = as @ i # bs" and "zs = as' @ i # bs'"
  shows "as = as'"
proof -
  from assms(1,2) have "i \<notin> set as" by auto
  moreover from assms(1,3) have "i \<notin> set as'" by auto
  ultimately have "takeWhile (\<lambda>z. z \<noteq> i) zs = as" "takeWhile (\<lambda>z. z \<noteq> i) zs = as'"
    using assms(2,3) takeWhile_upto by metis+
  then show ?thesis by simp
qed

lemma subtree_self: "rooted par (i # xs) \<Longrightarrow> i \<in> subtree par i"
  by (auto simp: subtree_def)

lemma subtree_child: "par c = Some i \<Longrightarrow> subtree par c \<subseteq> subtree par i"
proof
  fix y
  assume p: "par c = Some i" and "y \<in> subtree par c"
  then obtain xs where r: "rooted par (y # xs)" and "c \<in> set (y # xs)" by (auto simp: subtree_def)
  then obtain us vs where s: "y # xs = us @ c # vs" by (metis split_list)
  with r p rooted_next[of par us c vs i] obtain ws where "vs = i # ws" by auto
  with s have "i \<in> set (y # xs)" by simp
  with r show "y \<in> subtree par i" unfolding subtree_def by blast
qed

lemma subtree_parent_notin:
  assumes "par c = Some i" and "rooted par (i # xs)"
  shows "i \<notin> subtree par c"
proof
  assume "i \<in> subtree par c"
  then obtain ys where r: "rooted par (i # ys)" and "c \<in> set (i # ys)" by (auto simp: subtree_def)
  then obtain us vs where s: "i # ys = us @ c # vs" by (metis split_list)
  with r assms(1) rooted_next[of par us c vs i] obtain ws where w: "vs = i # ws" by auto
  from r have d: "distinct (i # ys)" by (rule rooted_distinct)
  show False
  proof (cases us)
    case Nil
    with s w d show ?thesis by auto
  next
    case (Cons u us')
    with s w d show ?thesis by auto
  qed
qed

lemma subtree_siblings:
  assumes "par c = Some i" and "par c' = Some i" and "c \<noteq> c'"
  shows "subtree par c \<inter> subtree par c' = {}"
proof (rule ccontr)
  assume "subtree par c \<inter> subtree par c' \<noteq> {}"
  then obtain y xs xs' where r: "rooted par (y # xs)" "c \<in> set (y # xs)"
    and r': "rooted par (y # xs')" "c' \<in> set (y # xs')" by (auto simp: subtree_def)
  from rooted_unique[OF r(1) r'(1)] r' have c': "c' \<in> set (y # xs)" by simp
  from r(2) obtain us vs where s: "y # xs = us @ c # vs" by (metis split_list)
  from c' obtain us' vs' where s': "y # xs = us' @ c' # vs'" by (metis split_list)
  from r(1) s assms(1) rooted_next[of par us c vs i] obtain ws where w: "vs = i # ws" by auto
  from r(1) s' assms(2) rooted_next[of par us' c' vs' i] obtain ws' where w': "vs' = i # ws'" by auto
  from r(1) have d: "distinct (y # xs)" by (rule rooted_distinct)
  from s w have 1: "y # xs = (us @ [c]) @ i # ws" by simp
  from s' w' have 2: "y # xs = (us' @ [c']) @ i # ws'" by simp
  from distinct_split_unique[OF d 1 2] assms(3) show False by simp
qed

lemma subtree_roots:
  assumes "par r = None" and "par r' = None" and "r \<noteq> r'"
  shows "subtree par r \<inter> subtree par r' = {}"
proof (rule ccontr)
  assume "subtree par r \<inter> subtree par r' \<noteq> {}"
  then obtain y xs xs' where q: "rooted par (y # xs)" "r \<in> set (y # xs)"
    and q': "rooted par (y # xs')" "r' \<in> set (y # xs')" by (auto simp: subtree_def)
  from rooted_unique[OF q(1) q'(1)] q' have c': "r' \<in> set (y # xs)" by simp
  from q(2) obtain us vs where s: "y # xs = us @ r # vs" by (metis split_list)
  from c' obtain us' vs' where s': "y # xs = us' @ r' # vs'" by (metis split_list)
  from q(1) s assms(1) rooted_last[of par us r vs] have "vs = []" by auto
  moreover from q(1) s' assms(2) rooted_last[of par us' r' vs'] have "vs' = []" by auto
  ultimately have "last (y # xs) = r" "last (y # xs) = r'" using s s' by (metis last_snoc)+
  with assms(3) show False by simp
qed

lemma linked_children:
  assumes "linked par S" and "map_of S i = Some n"
  shows "children n = filter (\<lambda>c. par c = Some i) (map fst S)"
  using assms by (auto simp: linked_def children_of_def split: option.splits)

lemma clean_tree_ok:
  assumes "linked par S"
  shows "distinct ids \<Longrightarrow> set ids \<subseteq> fst ` set S \<Longrightarrow>
    (\<forall>i \<in> set ids. \<exists>xs. rooted par (i # xs)) \<Longrightarrow>
    (\<forall>i \<in> set ids. subtree par i \<inter> set D = {}) \<Longrightarrow>
    (\<forall>i \<in> set ids. \<forall>j \<in> set ids. i \<noteq> j \<longrightarrow> subtree par i \<inter> subtree par j = {}) \<Longrightarrow>
    \<exists>D'. clean_tree S D ids = Inr D' \<and> set D' \<subseteq> set D \<union> (\<Union>i \<in> set ids. subtree par i) \<and>
         set D \<union> set ids \<subseteq> set D'"
  using assms
proof (induction S D ids rule: clean_tree.induct)
  case (1 nodes deleted)
  then show ?case by simp
next
  case (2 nodes deleted i ids)
  note lk = \<open>linked par nodes\<close>
  from "2.prems"(2) obtain n where n: "map_of nodes i = Some n" by (auto simp: key_iff)
  from "2.prems"(3) obtain xs where rt: "rooted par (i # xs)" by auto
  then have self: "i \<in> subtree par i" by (rule subtree_self)
  with "2.prems"(4) have ni: "i \<notin> set deleted" by auto
  have ch: "children n = filter (\<lambda>c. par c = Some i) (map fst nodes)"
    using lk n by (rule linked_children)
  have rest_distinct: "distinct ids" and rest_keys: "set ids \<subseteq> fst ` set nodes"
    and rest_rooted: "\<forall>j \<in> set ids. \<exists>xs. rooted par (j # xs)"
    and rest_disj: "\<forall>a \<in> set ids. \<forall>b \<in> set ids. a \<noteq> b \<longrightarrow> subtree par a \<inter> subtree par b = {}"
    using "2.prems"(1,2,3,5) by auto
  have rest_i: "\<forall>j \<in> set ids. subtree par j \<inter> subtree par i = {}"
    using "2.prems"(1,5) by auto
  show ?case
  proof (cases "children n = []")
    case True
    have "\<forall>j \<in> set ids. subtree par j \<inter> set (i # deleted) = {}"
      using rest_i self "2.prems"(4) by auto
    from "2.IH"(3)[OF n ni _ rest_distinct rest_keys rest_rooted this rest_disj lk] True
    obtain D' where D': "clean_tree nodes (i # deleted) ids = Inr D'"
      "set D' \<subseteq> set (i # deleted) \<union> (\<Union>j \<in> set ids. subtree par j)"
      "set (i # deleted) \<union> set ids \<subseteq> set D'" by auto
    from D'(1) n ni True have "clean_tree nodes deleted (i # ids) = Inr D'" by simp
    with D'(2,3) self show ?thesis by auto
  next
    case False
    have c1: "distinct (children n)" using lk by (simp add: ch linked_def)
    have c2: "set (children n) \<subseteq> fst ` set nodes" by (auto simp: ch)
    have par_c: "par c = Some i" if "c \<in> set (children n)" for c using that by (simp add: ch)
    have c3: "\<forall>c \<in> set (children n). \<exists>ys. rooted par (c # ys)"
      using par_c rt by (metis rooted.simps(3))
    have sub: "subtree par c \<subseteq> subtree par i" if "c \<in> set (children n)" for c
      using par_c[OF that] by (rule subtree_child)
    have c4: "\<forall>c \<in> set (children n). subtree par c \<inter> set (i # deleted) = {}"
    proof
      fix c assume c: "c \<in> set (children n)"
      from subtree_parent_notin[OF par_c[OF c] rt] have "i \<notin> subtree par c" .
      moreover from sub[OF c] "2.prems"(4) have "subtree par c \<inter> set deleted = {}" by auto
      ultimately show "subtree par c \<inter> set (i # deleted) = {}" by auto
    qed
    have c5: "\<forall>a \<in> set (children n). \<forall>b \<in> set (children n). a \<noteq> b \<longrightarrow>
               subtree par a \<inter> subtree par b = {}"
      using par_c subtree_siblings by blast
    from "2.IH"(1)[OF n ni False c1 c2 c3 c4 c5 lk]
    obtain D1 where D1: "clean_tree nodes (i # deleted) (children n) = Inr D1"
      "set D1 \<subseteq> set (i # deleted) \<union> (\<Union>c \<in> set (children n). subtree par c)"
      "set (i # deleted) \<union> set (children n) \<subseteq> set D1" by auto
    from D1(2) sub self have D1i: "set D1 \<subseteq> set deleted \<union> subtree par i" by auto
    have "\<forall>j \<in> set ids. subtree par j \<inter> set D1 = {}"
    proof
      fix j assume j: "j \<in> set ids"
      with rest_i have "subtree par j \<inter> subtree par i = {}" by blast
      moreover from j "2.prems"(4) have "subtree par j \<inter> set deleted = {}" by simp
      ultimately show "subtree par j \<inter> set D1 = {}" using D1i by blast
    qed
    from "2.IH"(2)[OF n ni False D1(1) rest_distinct rest_keys rest_rooted this rest_disj lk]
    obtain D' where D': "clean_tree nodes D1 ids = Inr D'"
      "set D' \<subseteq> set D1 \<union> (\<Union>j \<in> set ids. subtree par j)"
      "set D1 \<union> set ids \<subseteq> set D'" by auto
    from D'(1) D1(1) n ni False have "clean_tree nodes deleted (i # ids) = Inr D'" by simp
    with D'(2,3) D1i D1(3) show ?thesis by auto
  qed
qed

lemma sequence_Inr:
  assumes "\<forall>x \<in> set xs. \<exists>v. f x = Inr v \<and> P x v"
  shows "\<exists>vs. sequence (map f xs) = Inr vs \<and> list_all2 P xs vs"
  using assms
proof (induction xs)
  case Nil
  then show ?case by simp
next
  case (Cons x xs)
  then obtain v vs where "f x = Inr v" "P x v" "sequence (map f xs) = Inr vs" "list_all2 P xs vs"
    by auto
  then show ?case by simp
qed

lemma dumps_node_ok:
  assumes "linked par S"
  shows "rooted par (i # markers) \<Longrightarrow> i \<in> fst ` set S \<Longrightarrow>
    \<exists>t n. dumps_node S D markers i = Inr t \<and> map_of S i = Some n \<and>
          tree_id t = node_id n \<and> tree_label t = label n"
  using assms
proof (induction S D markers i rule: dumps_node.induct)
  case (1 nodes deleted markers i)
  note lk = \<open>linked par nodes\<close>
  from "1.prems"(2) obtain n where n: "map_of nodes i = Some n" by (auto simp: key_iff)
  from "1.prems"(1) have "distinct (i # markers)" by (rule rooted_distinct)
  then have ni: "i \<notin> set markers" by simp
  have ch: "children n = filter (\<lambda>c. par c = Some i) (map fst nodes)"
    using lk n by (rule linked_children)
  have "\<forall>c \<in> set (children n). \<exists>t. dumps_node nodes deleted (i # markers) c = Inr t \<and> True"
  proof
    fix c assume c: "c \<in> set (children n)"
    then have "par c = Some i" "c \<in> fst ` set nodes" by (auto simp: ch)
    with "1.prems"(1) have "rooted par (c # i # markers)" by simp
    from "1.IH"[OF n ni c this \<open>c \<in> fst ` set nodes\<close> lk]
    show "\<exists>t. dumps_node nodes deleted (i # markers) c = Inr t \<and> True" by blast
  qed
  from sequence_Inr[OF this] obtain ts where
    "sequence (map (dumps_node nodes deleted (i # markers)) (children n)) = Inr ts" by blast
  with n ni show ?case by simp
qed

lemma fst_set_resolve_containment: "fst ` set (resolve_containment py S) = fst ` set S"
  using keys_resolve_containment[of py S] by (metis set_map)

lemma linked_resolve_containment:
  "linked (best_parent_id py (extract_vertices py cells))
     (resolve_containment py (extract_vertices py cells))"
proof -
  let ?E = "extract_vertices py cells"
  have d: "distinct (map fst ?E)" by (rule extract_vertices_distinct)
  have 1: "distinct (map fst (resolve_containment py ?E))"
    using d by (simp add: keys_resolve_containment)
  have 2: "c \<in> fst ` set (resolve_containment py ?E) \<and> p \<in> fst ` set (resolve_containment py ?E)"
    if "best_parent_id py ?E c = Some p" for c p
    using best_parent_id_child_key[OF that] best_parent_id_SomeD(2)[OF that d]
    by (auto simp: fst_set_resolve_containment key_iff)
  have "children_of ?E k = []" for k
    using extract_vertices_lookup[of py cells k]
    by (auto simp: children_of_def split: option.splits)
  then have 3: "children_of (resolve_containment py ?E) k =
      filter (\<lambda>c. best_parent_id py ?E c = Some k) (map fst (resolve_containment py ?E))" for k
    using children_of_resolve_containment[OF d, of py k] by (simp add: keys_resolve_containment)
  from 1 2 3 show ?thesis unfolding linked_def by blast
qed

lemma linked_child_ids:
  assumes "linked par S"
  shows "set (child_ids S) = {c. par c \<noteq> None}"
proof -
  have d: "distinct (map fst S)" using assms by (simp add: linked_def)
  have "set (child_ids S) = (\<Union>(k, n) \<in> set S. set (children n))"
    by (auto simp: child_ids_def)
  also have "\<dots> = (\<Union>(k, n) \<in> set S. {c \<in> fst ` set S. par c = Some k})"
  proof -
    have "set (children n) = {c \<in> fst ` set S. par c = Some k}" if "(k, n) \<in> set S" for k n
    proof -
      from that d have "map_of S k = Some n" by simp
      from linked_children[OF assms this] show ?thesis by auto
    qed
    then have "(case x of (k, n) \<Rightarrow> set (children n)) =
               (case x of (k, n) \<Rightarrow> {c \<in> fst ` set S. par c = Some k})" if "x \<in> set S" for x
      using that by (cases x) simp
    then show ?thesis by (rule SUP_cong[OF refl])
  qed
  also have "\<dots> = {c. par c \<noteq> None}"
  proof (intro equalityI subsetI)
    fix c assume "c \<in> (\<Union>(k, n) \<in> set S. {c \<in> fst ` set S. par c = Some k})"
    then show "c \<in> {c. par c \<noteq> None}" by auto
  next
    fix c assume "c \<in> {c. par c \<noteq> None}"
    then obtain p where p: "par c = Some p" by auto
    with assms have "c \<in> fst ` set S" "p \<in> fst ` set S" by (auto simp: linked_def)
    then obtain n where "(p, n) \<in> set S" by auto
    with p \<open>c \<in> fst ` set S\<close>
    show "c \<in> (\<Union>(k, n) \<in> set S. {c \<in> fst ` set S. par c = Some k})" by blast
  qed
  finally show ?thesis .
qed

lemma linked_hierarchical_tree:
  assumes "linked par S"
  shows "hierarchical_tree S = filter (\<lambda>k. par k = None) (map fst S)"
  unfolding hierarchical_tree_def linked_child_ids[OF assms] by simp

lemma linked_forest:
  assumes "linked par S"
  shows "\<exists>deleted forest.
           clean_tree S [] (hierarchical_tree S) = Inr deleted \<and>
           set (hierarchical_tree S) \<subseteq> set deleted \<and>
           sequence (map (dumps_node S deleted []) (hierarchical_tree S)) = Inr forest \<and>
           list_all2 (\<lambda>i t. \<exists>n. map_of S i = Some n \<and> tree_id t = node_id n \<and> tree_label t = label n)
             (hierarchical_tree S) forest"
proof -
  let ?R = "hierarchical_tree S"
  have R: "?R = filter (\<lambda>k. par k = None) (map fst S)"
    using assms by (rule linked_hierarchical_tree)
  have 1: "distinct ?R" using assms by (simp add: R linked_def)
  have 2: "set ?R \<subseteq> fst ` set S" by (auto simp: R)
  have 3: "\<forall>i \<in> set ?R. \<exists>xs. rooted par (i # xs)"
  proof
    fix i assume "i \<in> set ?R"
    then have "rooted par (i # [])" by (simp add: R)
    then show "\<exists>xs. rooted par (i # xs)" ..
  qed
  have 4: "\<forall>i \<in> set ?R. subtree par i \<inter> set [] = {}" by simp
  have 5: "\<forall>i \<in> set ?R. \<forall>j \<in> set ?R. i \<noteq> j \<longrightarrow> subtree par i \<inter> subtree par j = {}"
    using subtree_roots[of par] by (simp add: R)
  from clean_tree_ok[OF assms 1 2 3 4 5] obtain deleted where
    D: "clean_tree S [] ?R = Inr deleted" "set ?R \<subseteq> set deleted" by auto
  have "\<forall>i \<in> set ?R. \<exists>t. dumps_node S deleted [] i = Inr t \<and>
          (\<exists>n. map_of S i = Some n \<and> tree_id t = node_id n \<and> tree_label t = label n)"
  proof
    fix i assume i: "i \<in> set ?R"
    then have "rooted par (i # [])" "i \<in> fst ` set S" by (auto simp: R)
    from dumps_node_ok[OF assms this, of deleted]
    show "\<exists>t. dumps_node S deleted [] i = Inr t \<and>
          (\<exists>n. map_of S i = Some n \<and> tree_id t = node_id n \<and> tree_label t = label n)" by blast
  qed
  from sequence_Inr[OF this] D show ?thesis by blast
qed

lemma parse_document:
  assumes "find_graph_model_root doc = Some graph_model_root"
    and "cells = findall_elem graph_model_root ''mxCell''"
    and "elements = extract_vertices py cells"
  shows "\<exists>forest.
           list_all2 (\<lambda>i t. tree_id t = i \<and> map_option label (map_of elements i) = Some (tree_label t))
             (hierarchical_tree (resolve_containment py elements)) forest \<and>
           parse_drawio_xml_v3 py (Document doc) =
             (case diagram_name_of doc of
                Inl e \<Rightarrow> Inl e
              | Inr name \<Rightarrow>
                  Inr \<lparr>schema_version = ''3.0'', diagram_name = name, architecture = forest,
                       connections = extract_edges elements cells\<rparr>)"
proof -
  let ?S = "resolve_containment py elements"
  have lk: "linked (best_parent_id py elements) ?S"
    unfolding assms(3) by (rule linked_resolve_containment)
  from linked_forest[OF lk] obtain deleted forest where
    c: "clean_tree ?S [] (hierarchical_tree ?S) = Inr deleted"
    and f: "sequence (map (dumps_node ?S deleted []) (hierarchical_tree ?S)) = Inr forest"
    and a: "list_all2 (\<lambda>i t. \<exists>n. map_of ?S i = Some n \<and> tree_id t = node_id n \<and> tree_label t = label n)
             (hierarchical_tree ?S) forest" by blast
  have "tree_id t = i \<and> map_option label (map_of elements i) = Some (tree_label t)"
    if "map_of ?S i = Some n" "tree_id t = node_id n" "tree_label t = label n" for i t n
  proof -
    from that(1) lookup_resolve_containment[of py elements i]
    obtain m where m: "map_of elements i = Some m" "node_id m = node_id n" "label m = label n"
      by (cases "map_of elements i") auto
    from m(1) have "node_id m = i" using extract_vertices_lookup assms(3) by blast
    with m that show ?thesis by simp
  qed
  with a have a': "list_all2 (\<lambda>i t. tree_id t = i \<and>
      map_option label (map_of elements i) = Some (tree_label t)) (hierarchical_tree ?S) forest"
    by (auto elim!: list_all2_mono)
  have "parse_drawio_xml_v3 py (Document doc) =
             (case diagram_name_of doc of
                Inl e \<Rightarrow> Inl e
              | Inr name \<Rightarrow>
                  Inr \<lparr>schema_version = ''3.0'', diagram_name = name, architecture = forest,
                       connections = extract_edges elements cells\<rparr>)"
    using assms c f
    by (simp add: parse_drawio_xml_v3_def Let_def extract_edges_resolved split: sum.splits)
  with a' show ?thesis by blast
qed

lemma parse_Inr_document:
  assumes "parse_drawio_xml_v3 py file = Inr out"
  shows "\<exists>doc graph_model_root. file = Document doc \<and>
           find_graph_model_root doc = Some graph_model_root"
  using assms by (auto simp: parse_drawio_xml_v3_def split: xml_file.splits option.splits)

section \<open>The emitted nodes\<close>

lemma sequence_InrD:
  "sequence (map f xs) = Inr vs \<Longrightarrow> list_all2 (\<lambda>x v. f x = Inr v) xs vs"
proof (induction xs arbitrary: vs)
  case Nil
  then show ?case by simp
next
  case (Cons x xs)
  then show ?case by (auto split: sum.splits)
qed

lemma list_all2_rightD: "list_all2 P xs ys \<Longrightarrow> y \<in> set ys \<Longrightarrow> \<exists>x \<in> set xs. P x y"
  by (induction rule: list_all2_induct) auto

lemma dumps_node_nodes:
  "dumps_node S D markers i = Inr t \<Longrightarrow>
   \<forall>(a, l, g) \<in> set (tree_nodes t). \<exists>k n. map_of S k = Some n \<and> a = node_id n \<and> l = label n"
proof (induction S D markers i arbitrary: t rule: dumps_node.induct)
  case (1 nodes deleted markers i)
  from "1.prems" obtain n ts where n: "map_of nodes i = Some n" and ni: "i \<notin> set markers"
    and s: "sequence (map (dumps_node nodes deleted (i # markers)) (children n)) = Inr ts"
    and t: "t = Tree (node_id n) (label n) (if i \<in> set deleted then None else Some (geometry n)) ts"
    by (subst (asm) dumps_node.simps)
      (auto split: option.splits if_splits sum.splits simp del: dumps_node.simps)
  from sequence_InrD[OF s] have
    a: "list_all2 (\<lambda>c v. dumps_node nodes deleted (i # markers) c = Inr v) (children n) ts" .
  have "\<exists>k m. map_of nodes k = Some m \<and> a = node_id m \<and> l = label m"
    if "u \<in> set ts" "(a, l, g) \<in> set (tree_nodes u)" for u a l g
  proof -
    from list_all2_rightD[OF a that(1)] obtain c where c: "c \<in> set (children n)"
      "dumps_node nodes deleted (i # markers) c = Inr u" by blast
    from "1.IH"[OF n ni c] that(2) show ?thesis by blast
  qed
  with n t show ?case by (auto simp del: dumps_node.simps)
qed

lemma parse_forest_nodes:
  assumes "parse_drawio_xml_v3 py (Document doc) = Inr out"
    and "find_graph_model_root doc = Some graph_model_root"
    and "elements = extract_vertices py (findall_elem graph_model_root ''mxCell'')"
    and "t \<in> set (architecture out)" and "(a, l, g) \<in> set (tree_nodes t)"
  shows "\<exists>n. (a, n) \<in> set elements \<and> l = label n"
proof -
  let ?S = "resolve_containment py elements"
  from assms(1,2,3) obtain deleted where
    s: "sequence (map (dumps_node ?S deleted []) (hierarchical_tree ?S)) = Inr (architecture out)"
    by (auto simp: parse_drawio_xml_v3_def Let_def split: sum.splits)
  from list_all2_rightD[OF sequence_InrD[OF s] assms(4)]
  obtain i where "dumps_node ?S deleted [] i = Inr t" by blast
  from dumps_node_nodes[OF this] assms(5) obtain k n where
    n: "map_of ?S k = Some n" "a = node_id n" "l = label n" by blast
  from n(1) lookup_resolve_containment[of py elements k]
  obtain m where m: "map_of elements k = Some m" "node_id m = node_id n" "label m = label n"
    by (cases "map_of elements k") auto
  from m(1) have "node_id m = k" using extract_vertices_lookup assms(3) by blast
  with m n have "(a, m) \<in> set elements" "l = label m" by (auto dest: map_of_SomeD)
  then show ?thesis by blast
qed

lemma element_label:
  assumes "(k, n) \<in> set (extract_vertices py cells)"
  shows "\<exists>c \<in> set cells. \<exists>v. get_attr c ''value'' = Some v \<and> get_attr c ''id'' = Some k \<and>
           label n = replace_br (strip v) \<and>
           (label n \<noteq> [] \<and> isspace (hd (label n)) \<longrightarrow> take 4 (strip v) = ''<br>'') \<and>
           (label n \<noteq> [] \<and> isspace (last (label n)) \<longrightarrow> suffix ''<br>'' (strip v))"
proof -
  from extract_vertices_members[OF assms] obtain c where c: "c \<in> set cells"
    "cell_node py c = Some n" "k = node_id n" by blast
  from cell_node_SomeD[OF c(2)] obtain v where v: "get_attr c ''value'' = Some v"
    and l: "label n = replace_br (strip v)" and i: "get_attr c ''id'' = Some k"
    by (cases "get_attr c ''value''") (auto simp: truthy_def normalize_label_def c(3))
  have h: "take 4 (strip v) = ''<br>''" if "label n \<noteq> []" "isspace (hd (label n))"
  proof (rule ccontr)
    assume nt: "take 4 (strip v) \<noteq> ''<br>''"
    from that(1) l have ne: "strip v \<noteq> []" by (simp add: replace_br_Nil_iff)
    from replace_br_hd[OF ne nt] l have "hd (label n) = hd (strip v)" by simp
    with that(2) strip_ends[of v] ne show False by simp
  qed
  have t: "suffix ''<br>'' (strip v)" if "label n \<noteq> []" "isspace (last (label n))"
  proof (rule ccontr)
    assume nt: "\<not> suffix ''<br>'' (strip v)"
    from that(1) l have ne: "strip v \<noteq> []" by (simp add: replace_br_Nil_iff)
    from replace_br_last[OF ne nt] l have "last (label n) = last (strip v)" by simp
    with that(2) strip_ends[of v] ne show False by simp
  qed
  from c(1) v l i h t show ?thesis by blast
qed

section \<open>The forest without mutual containment\<close>

lemma subtree_unfold:
  assumes "linked par S" and "map_of S i = Some n"
  shows "subtree par i \<subseteq> {i} \<union> (\<Union>c \<in> set (children n). subtree par c)"
proof
  fix y assume "y \<in> subtree par i"
  then obtain xs where r: "rooted par (y # xs)" and i: "i \<in> set (y # xs)"
    by (auto simp: subtree_def)
  show "y \<in> {i} \<union> (\<Union>c \<in> set (children n). subtree par c)"
  proof (cases "y = i")
    case True
    then show ?thesis by simp
  next
    case False
    with i have "i \<in> set xs" by simp
    then obtain us vs where s: "xs = us @ i # vs" by (auto dest: split_list)
    define c where "c = last (y # us)"
    have "y # us = butlast (y # us) @ [c]" unfolding c_def by simp
    with s have full: "y # xs = butlast (y # us) @ c # i # vs"
      by (metis append.assoc append_Cons append_Nil)
    with r have "rooted par (c # i # vs)" by (metis rooted_suffix)
    then have pc: "par c = Some i" by simp
    with assms(1) have "c \<in> fst ` set S" by (auto simp: linked_def)
    with pc linked_children[OF assms] have "c \<in> set (children n)" by simp
    moreover from full have "c \<in> set (y # xs)" by simp
    with r have "y \<in> subtree par c" unfolding subtree_def by blast
    ultimately show ?thesis by blast
  qed
qed

lemma distinct_concat_all2:
  assumes "list_all2 (\<lambda>c u. distinct (f u) \<and> set (f u) = A c) cs us"
    and "distinct cs"
    and "\<forall>c \<in> set cs. \<forall>c' \<in> set cs. c \<noteq> c' \<longrightarrow> A c \<inter> A c' = {}"
  shows "distinct (concat (map f us)) \<and> set (concat (map f us)) = (\<Union>c \<in> set cs. A c)"
  using assms
proof (induction rule: list_all2_induct)
  case Nil
  then show ?case by simp
next
  case (Cons c cs u us)
  then have ih: "distinct (concat (map f us))" "set (concat (map f us)) = (\<Union>c \<in> set cs. A c)"
    by auto
  from Cons.prems have "A c \<inter> (\<Union>c \<in> set cs. A c) = {}" by auto
  with Cons.hyps(1) ih show ?case by auto
qed

lemma dumps_node_ids:
  assumes "linked par S" and "\<forall>k n. map_of S k = Some n \<longrightarrow> node_id n = k"
  shows "rooted par (i # markers) \<Longrightarrow> dumps_node S D markers i = Inr t \<Longrightarrow>
    distinct (map fst (tree_nodes t)) \<and> set (map fst (tree_nodes t)) = subtree par i"
  using assms
proof (induction S D markers i arbitrary: t rule: dumps_node.induct)
  case (1 nodes deleted markers i)
  note lk = \<open>linked par nodes\<close> and ids = \<open>\<forall>k n. map_of nodes k = Some n \<longrightarrow> node_id n = k\<close>
  from "1.prems"(2) obtain n ts where n: "map_of nodes i = Some n" and ni: "i \<notin> set markers"
    and s: "sequence (map (dumps_node nodes deleted (i # markers)) (children n)) = Inr ts"
    and t: "t = Tree (node_id n) (label n) (if i \<in> set deleted then None else Some (geometry n)) ts"
    by (subst (asm) dumps_node.simps)
      (auto split: option.splits if_splits sum.splits simp del: dumps_node.simps)
  have ch: "children n = filter (\<lambda>c. par c = Some i) (map fst nodes)"
    using lk n by (rule linked_children)
  have par_c: "par c = Some i" if "c \<in> set (children n)" for c using that by (simp add: ch)
  from sequence_InrD[OF s] have
    a: "list_all2 (\<lambda>c v. dumps_node nodes deleted (i # markers) c = Inr v) (children n) ts" .
  have "list_all2 (\<lambda>c u. distinct (map fst (tree_nodes u)) \<and>
                          set (map fst (tree_nodes u)) = subtree par c) (children n) ts"
  proof (rule list.rel_mono_strong[OF a])
    fix c u assume c: "c \<in> set (children n)" and "u \<in> set ts"
      and u: "dumps_node nodes deleted (i # markers) c = Inr u"
    from par_c[OF c] "1.prems"(1) have r: "rooted par (c # i # markers)" by simp
    show "distinct (map fst (tree_nodes u)) \<and> set (map fst (tree_nodes u)) = subtree par c"
      using "1.IH"[OF n ni c r u lk ids] by blast
  qed
  moreover have "distinct (children n)" using lk by (simp add: ch linked_def)
  moreover have "\<forall>c \<in> set (children n). \<forall>c' \<in> set (children n). c \<noteq> c' \<longrightarrow>
                   subtree par c \<inter> subtree par c' = {}"
    using par_c subtree_siblings by blast
  ultimately have d: "distinct (concat (map (\<lambda>u. map fst (tree_nodes u)) ts))"
    and e: "set (concat (map (\<lambda>u. map fst (tree_nodes u)) ts)) = (\<Union>c \<in> set (children n). subtree par c)"
    using distinct_concat_all2[of "\<lambda>u. map fst (tree_nodes u)" "subtree par" "children n" ts]
    by auto
  have cc: "map fst (concat (map tree_nodes ts)) = concat (map (\<lambda>u. map fst (tree_nodes u)) ts)"
    by (simp add: map_concat comp_def)
  from ids n have id: "node_id n = i" by simp
  have "i \<notin> subtree par c" if "c \<in> set (children n)" for c
    using par_c[OF that] "1.prems"(1) by (rule subtree_parent_notin)
  then have notin: "i \<notin> (\<Union>c \<in> set (children n). subtree par c)" by blast
  have "subtree par c \<subseteq> subtree par i" if "c \<in> set (children n)" for c
    using par_c[OF that] by (rule subtree_child)
  then have sub: "(\<Union>c \<in> set (children n). subtree par c) \<subseteq> subtree par i" by blast
  have self: "i \<in> subtree par i" using "1.prems"(1) by (rule subtree_self)
  from subtree_unfold[OF lk n] sub self
  have "subtree par i = {i} \<union> (\<Union>c \<in> set (children n). subtree par c)" by blast
  with d e notin show ?case by (simp add: t id cc del: dumps_node.simps)
qed

lemma rooted_last_root: "rooted par xs \<Longrightarrow> par (last xs) = None"
  by (induction par xs rule: rooted.induct) auto

lemma rooted_keys:
  assumes "linked par S"
  shows "rooted par (y # xs) \<Longrightarrow> y \<in> fst ` set S \<Longrightarrow> set (y # xs) \<subseteq> fst ` set S"
proof (induction xs arbitrary: y)
  case Nil
  then show ?case by simp
next
  case (Cons p ps)
  then have "par y = Some p" "rooted par (p # ps)" by auto
  with assms have "p \<in> fst ` set S" by (auto simp: linked_def)
  from Cons.IH[OF \<open>rooted par (p # ps)\<close> this] Cons.prems(2) show ?case by simp
qed

lemma grounded:
  assumes "finite K"
    and "\<And>c p. par c = Some p \<Longrightarrow> p \<in> K \<and> p \<noteq> c \<and> Q c p"
    and "\<And>a b c. Q a b \<Longrightarrow> Q b c \<Longrightarrow> Q a c"
    and "\<And>a b. a \<noteq> b \<Longrightarrow> Q a b \<Longrightarrow> \<not> Q b a"
  shows "\<exists>xs. rooted par (k # xs)"
proof (induction "card {k' \<in> K. k' \<noteq> k \<and> Q k k'}" arbitrary: k rule: less_induct)
  case less
  show ?case
  proof (cases "par k")
    case None
    then have "rooted par (k # [])" by simp
    then show ?thesis ..
  next
    case (Some p)
    from assms(2)[OF Some] have p: "p \<in> K" "p \<noteq> k" "Q k p" by auto
    have "{k' \<in> K. k' \<noteq> p \<and> Q p k'} \<subseteq> {k' \<in> K. k' \<noteq> k \<and> Q k k'}"
    proof
      fix k' assume "k' \<in> {k' \<in> K. k' \<noteq> p \<and> Q p k'}"
      then have k': "k' \<in> K" "k' \<noteq> p" "Q p k'" by auto
      from assms(3)[OF p(3) k'(3)] have "Q k k'" .
      moreover have "k' \<noteq> k"
      proof
        assume "k' = k"
        with k'(3) have "Q p k" by simp
        from assms(4)[OF p(2) this] p(3) show False by simp
      qed
      ultimately show "k' \<in> {k' \<in> K. k' \<noteq> k \<and> Q k k'}" using k'(1) by simp
    qed
    moreover have "p \<in> {k' \<in> K. k' \<noteq> k \<and> Q k k'}" "p \<notin> {k' \<in> K. k' \<noteq> p \<and> Q p k'}"
      using p by auto
    ultimately have "{k' \<in> K. k' \<noteq> p \<and> Q p k'} \<subset> {k' \<in> K. k' \<noteq> k \<and> Q k k'}" by blast
    with assms(1) have "card {k' \<in> K. k' \<noteq> p \<and> Q p k'} < card {k' \<in> K. k' \<noteq> k \<and> Q k k'}"
      by (intro psubset_card_mono) auto
    from less[OF this] obtain xs where "rooted par (p # xs)" by blast
    with Some have "rooted par (k # p # xs)" by simp
    then show ?thesis ..
  qed
qed

lemma linked_forest_ids:
  assumes "linked par S" and "\<forall>k n. map_of S k = Some n \<longrightarrow> node_id n = k"
    and "\<forall>k. \<exists>xs. rooted par (k # xs)"
    and "sequence (map (dumps_node S D []) (hierarchical_tree S)) = Inr forest"
  shows "distinct (map fst (concat (map tree_nodes forest))) \<and>
         set (map fst (concat (map tree_nodes forest))) = fst ` set S"
proof -
  let ?R = "hierarchical_tree S"
  have R: "?R = filter (\<lambda>k. par k = None) (map fst S)"
    using assms(1) by (rule linked_hierarchical_tree)
  from sequence_InrD[OF assms(4)]
  have a: "list_all2 (\<lambda>r t. dumps_node S D [] r = Inr t) ?R forest" .
  have b: "list_all2 (\<lambda>r t. distinct (map fst (tree_nodes t)) \<and>
                          set (map fst (tree_nodes t)) = subtree par r) ?R forest"
  proof (rule list.rel_mono_strong[OF a])
    fix r t assume r: "r \<in> set ?R" and "t \<in> set forest" and t: "dumps_node S D [] r = Inr t"
    from r have "rooted par (r # [])" by (simp add: R)
    from dumps_node_ids[OF assms(1,2) this t]
    show "distinct (map fst (tree_nodes t)) \<and> set (map fst (tree_nodes t)) = subtree par r" .
  qed
  have 1: "distinct ?R" using assms(1) by (simp add: R linked_def)
  have 2: "\<forall>i \<in> set ?R. \<forall>j \<in> set ?R. i \<noteq> j \<longrightarrow> subtree par i \<inter> subtree par j = {}"
    using subtree_roots[of par] by (simp add: R)
  from distinct_concat_all2[of "\<lambda>u. map fst (tree_nodes u)" "subtree par" ?R forest, OF b 1 2]
  have d: "distinct (concat (map (\<lambda>u. map fst (tree_nodes u)) forest))"
    and e: "set (concat (map (\<lambda>u. map fst (tree_nodes u)) forest)) = (\<Union>r \<in> set ?R. subtree par r)"
    by auto
  have cc: "map fst (concat (map tree_nodes forest)) = concat (map (\<lambda>u. map fst (tree_nodes u)) forest)"
    by (simp add: map_concat comp_def)
  have "(\<Union>r \<in> set ?R. subtree par r) = fst ` set S"
  proof (intro equalityI subsetI)
    fix y assume "y \<in> (\<Union>r \<in> set ?R. subtree par r)"
    then obtain r xs where r: "r \<in> set ?R" and x: "rooted par (y # xs)" "r \<in> set (y # xs)"
      by (auto simp: subtree_def)
    show "y \<in> fst ` set S"
    proof (cases xs)
      case Nil
      with x r show ?thesis by (auto simp: R)
    next
      case (Cons p ps)
      with x(1) have "par y = Some p" by simp
      with assms(1) show ?thesis by (auto simp: linked_def)
    qed
  next
    fix y assume y: "y \<in> fst ` set S"
    from assms(3) obtain xs where x: "rooted par (y # xs)" by blast
    let ?r = "last (y # xs)"
    from rooted_last_root[OF x] have pr: "par ?r = None" .
    have rin: "?r \<in> set (y # xs)" by (rule last_in_set) simp
    from rooted_keys[OF assms(1) x y] have "set (y # xs) \<subseteq> fst ` set S" .
    with rin have "?r \<in> fst ` set S" by blast
    with pr have "?r \<in> set ?R" unfolding R by simp
    moreover from x rin have "y \<in> subtree par ?r" unfolding subtree_def by blast
    ultimately show "y \<in> (\<Union>r \<in> set ?R. subtree par r)" by blast
  qed
  with d e cc show ?thesis by simp
qed

lemma is_contained_trans:
  assumes "\<forall>a b c. fl_ge py a b \<longrightarrow> fl_ge py b c \<longrightarrow> fl_ge py a c"
    and "\<forall>a b c. fl_le py a b \<longrightarrow> fl_le py b c \<longrightarrow> fl_le py a c"
    and "is_contained py g1 g2" and "is_contained py g2 g3"
  shows "is_contained py g1 g3"
proof -
  from assms(3) obtain a b where 1: "g1 = Some a" "g2 = Some b"
    by (cases g1; cases g2) auto
  from assms(4) 1 obtain c where 2: "g3 = Some c" by (cases g3) auto
  from assms(3,4) have
    "fl_ge py (geo_x a) (geo_x b)" "fl_ge py (geo_x b) (geo_x c)"
    "fl_ge py (geo_y a) (geo_y b)" "fl_ge py (geo_y b) (geo_y c)"
    "fl_le py (fl_add py (geo_x a) (geo_width a)) (fl_add py (geo_x b) (geo_width b))"
    "fl_le py (fl_add py (geo_x b) (geo_width b)) (fl_add py (geo_x c) (geo_width c))"
    "fl_le py (fl_add py (geo_y a) (geo_height a)) (fl_add py (geo_y b) (geo_height b))"
    "fl_le py (fl_add py (geo_y b) (geo_height b)) (fl_add py (geo_y c) (geo_height c))"
    unfolding 1 2 by simp_all
  with assms(1,2) have
    "fl_ge py (geo_x a) (geo_x c)" "fl_ge py (geo_y a) (geo_y c)"
    "fl_le py (fl_add py (geo_x a) (geo_width a)) (fl_add py (geo_x c) (geo_width c))"
    "fl_le py (fl_add py (geo_y a) (geo_height a)) (fl_add py (geo_y c) (geo_height c))"
    by blast+
  then show ?thesis unfolding 1 2 by simp
qed

lemma parse_Inr_forest:
  assumes "parse_drawio_xml_v3 py (Document doc) = Inr out"
    and "find_graph_model_root doc = Some graph_model_root"
    and "elements = extract_vertices py (findall_elem graph_model_root ''mxCell'')"
  shows "\<exists>deleted. sequence (map (dumps_node (resolve_containment py elements) deleted [])
           (hierarchical_tree (resolve_containment py elements))) = Inr (architecture out)"
  using assms by (auto simp: parse_drawio_xml_v3_def Let_def split: sum.splits)

text \<open>
  When the comparisons \<^verbatim>\<open>>=\<close> and \<^verbatim>\<open><=\<close> are transitive (they are for Python floats) and
  no two different elements contain each other under the test of \<open>is_contained\<close>, every
  element has a way up to a root, and the forest of the returned document holds the id of
  every element exactly once.
\<close>

lemma forest_without_mutual_containment:
  assumes "find_graph_model_root doc = Some graph_model_root"
    and "cells = findall_elem graph_model_root ''mxCell''"
    and "elements = extract_vertices py cells"
    and "find_elem doc ''diagram'' = Some d"
    and "\<forall>a b c. fl_ge py a b \<longrightarrow> fl_ge py b c \<longrightarrow> fl_ge py a c"
    and "\<forall>a b c. fl_le py a b \<longrightarrow> fl_le py b c \<longrightarrow> fl_le py a c"
    and "\<forall>(k, n) \<in> set elements. \<forall>(k', n') \<in> set elements. k \<noteq> k' \<longrightarrow>
           \<not> (is_contained py (Some (geometry n)) (Some (geometry n')) \<and>
              is_contained py (Some (geometry n')) (Some (geometry n)))"
  shows "\<exists>out. parse_drawio_xml_v3 py (Document doc) = Inr out \<and>
           distinct (map fst (concat (map tree_nodes (architecture out)))) \<and>
           set (map fst (concat (map tree_nodes (architecture out)))) = fst ` set elements"
proof -
  let ?S = "resolve_containment py elements"
  let ?par = "best_parent_id py elements"
  let ?Q = "\<lambda>a b. is_contained py (geometry_of elements a) (geometry_of elements b)"
  have d: "distinct (map fst elements)" unfolding assms(3) by (rule extract_vertices_distinct)
  have lk: "linked ?par ?S" unfolding assms(3) by (rule linked_resolve_containment)
  have ids: "\<forall>k n. map_of ?S k = Some n \<longrightarrow> node_id n = k"
  proof (intro allI impI)
    fix k n assume "map_of ?S k = Some n"
    with lookup_resolve_containment[of py elements k]
    obtain m where m: "map_of elements k = Some m" "node_id m = node_id n"
      by (cases "map_of elements k") auto
    from m(1) have "node_id m = k" using extract_vertices_lookup assms(3) by blast
    with m show "node_id n = k" by simp
  qed
  have 1: "p \<in> fst ` set elements \<and> p \<noteq> c \<and> ?Q c p" if "?par c = Some p" for c p
    using best_parent_id_SomeD[OF that d] by (auto simp: key_iff geometry_of_def)
  have 2: "?Q a c" if "?Q a b" "?Q b c" for a b c
    using is_contained_trans[OF assms(5,6) that] .
  have 3: "\<not> ?Q b a" if "a \<noteq> b" "?Q a b" for a b
  proof
    assume ba: "?Q b a"
    from that(2) obtain na nb where n: "map_of elements a = Some na" "map_of elements b = Some nb"
      by (cases "map_of elements a"; cases "map_of elements b") (auto simp: geometry_of_def)
    then have "(a, na) \<in> set elements" "(b, nb) \<in> set elements" by (auto dest: map_of_SomeD)
    with assms(7) that(1)
    have "\<not> (is_contained py (Some (geometry na)) (Some (geometry nb)) \<and>
             is_contained py (Some (geometry nb)) (Some (geometry na)))" by fastforce
    with that(2) ba n show False by (simp add: geometry_of_def)
  qed
  from grounded[of "fst ` set elements" ?par ?Q, OF _ 1 2 3]
  have g: "\<forall>k. \<exists>xs. rooted ?par (k # xs)" by simp
  from assms(4) obtain name where "diagram_name_of doc = Inr name"
    by (simp add: diagram_name_of_found)
  with parse_document[OF assms(1-3)] obtain out where
    p: "parse_drawio_xml_v3 py (Document doc) = Inr out" by auto
  from parse_Inr_forest[OF p assms(1)] assms(2,3) obtain deleted where
    "sequence (map (dumps_node ?S deleted []) (hierarchical_tree ?S)) = Inr (architecture out)"
    by blast
  from linked_forest_ids[OF lk ids g this] p show ?thesis
    by (auto simp: fst_set_resolve_containment)
qed

section \<open>The examples, evaluated\<close>

lemmas pass1_defs = extract_vertices_def store_cell_def cell_node_def get_attr_def truthy_def
  parse_geometry_def find_elem_def findall_elem_def float_attr_def normalize_label_def strip_def
  isspace_def

lemmas pass2_defs = resolve_containment_def resolve_child_def best_parent_id_def
  potential_parents_def geometry_of_def area_def append_child_def exact_float_def

lemmas cell_defs = cell_node_def get_attr_def truthy_def parse_geometry_def find_elem_def
  findall_elem_def float_attr_def normalize_label_def strip_def isspace_def exact_float_def float_digits_def
  vertex_cell_def edge_cell_def

lemma example_vertices: "extract_vertices exact_float example_cells =
  [(''A'', \<lparr>node_id = ''A'', label = ''Box A'',
           geometry = \<lparr>geo_x = 0, geo_y = 0, geo_width = 400, geo_height = 400\<rparr>, children = []\<rparr>),
   (''B'', \<lparr>node_id = ''B'', label = ''Box B'',
           geometry = \<lparr>geo_x = 20, geo_y = 20, geo_width = 150, geo_height = 150\<rparr>, children = []\<rparr>),
   (''C'', \<lparr>node_id = ''C'', label = ''Box C'',
           geometry = \<lparr>geo_x = 1000, geo_y = 1000, geo_width = 50, geo_height = 50\<rparr>, children = []\<rparr>)]"
  by (simp add: extract_vertices_def example_cells_def vertex_cell_def edge_cell_def store_cell_def
      cell_node_def get_attr_def truthy_def parse_geometry_def find_elem_def findall_elem_def
      float_attr_def exact_float_def float_digits_def normalize_label_def strip_def isspace_def)

lemma example_resolved: "resolve_containment exact_float (extract_vertices exact_float example_cells) =
  [(''A'', \<lparr>node_id = ''A'', label = ''Box A'',
           geometry = \<lparr>geo_x = 0, geo_y = 0, geo_width = 400, geo_height = 400\<rparr>, children = [''B'']\<rparr>),
   (''B'', \<lparr>node_id = ''B'', label = ''Box B'',
           geometry = \<lparr>geo_x = 20, geo_y = 20, geo_width = 150, geo_height = 150\<rparr>, children = []\<rparr>),
   (''C'', \<lparr>node_id = ''C'', label = ''Box C'',
           geometry = \<lparr>geo_x = 1000, geo_y = 1000, geo_width = 50, geo_height = 50\<rparr>, children = []\<rparr>)]"
  unfolding example_vertices by (simp add: pass2_defs)

lemmas doc_defs = mxfile_def find_graph_model_root_def findall_elem_def find_elem_def
  diagram_name_of_def get_attr_def

lemma example_root:
  "find_graph_model_root (mxfile attrs cells) = Some (Element ''root'' [] cells)"
  by (simp add: doc_defs)

lemma example_diagram:
  "find_elem (mxfile attrs cells) ''diagram'' =
     Some (Element ''diagram'' attrs [Element ''mxGraphModel'' [] [Element ''root'' [] cells]])"
  by (simp add: doc_defs)

lemma example_cells_all: "findall_elem (Element ''root'' [] example_cells) ''mxCell'' = example_cells"
  by (simp add: findall_elem_def example_cells_def vertex_cell_def edge_cell_def)

lemma example_edges:
  "extract_edges (extract_vertices exact_float example_cells) example_cells =
     [\<lparr>source_id = ''B'', source_label = ''Box B'', target_id = ''C'', target_label = ''Box C''\<rparr>]"
  unfolding example_vertices by (simp add: example_cells_def extract_edges_def map_filter_def cell_connection_def
      get_attr_def vertex_cell_def edge_cell_def)

lemma example_roots:
  "hierarchical_tree (resolve_containment exact_float (extract_vertices exact_float example_cells)) = [''A'', ''C'']"
  unfolding example_resolved by (simp add: hierarchical_tree_def child_ids_def)

lemma example_parse:
  "parse_drawio_xml_v3 exact_float (Document (mxfile attrs example_cells)) =
     Inr \<lparr>schema_version = ''3.0'',
          diagram_name = (case map_of attrs ''name'' of None \<Rightarrow> ''Untitled'' | Some s \<Rightarrow> s),
          architecture = [Tree ''A'' ''Box A'' None [Tree ''B'' ''Box B'' None []],
                          Tree ''C'' ''Box C'' None []],
          connections = [\<lparr>source_id = ''B'', source_label = ''Box B'',
                           target_id = ''C'', target_label = ''Box C''\<rparr>]\<rparr>"
proof -
  let ?S = "resolve_containment exact_float (extract_vertices exact_float example_cells)"
  have c: "clean_tree ?S [] [''A'', ''C''] = Inr [''C'', ''B'', ''A'']"
    unfolding example_resolved by simp
  have d: "dumps_node ?S [''C'', ''B'', ''A''] [] ''A'' =
      Inr (Tree ''A'' ''Box A'' None [Tree ''B'' ''Box B'' None []])"
    "dumps_node ?S [''C'', ''B'', ''A''] [] ''C'' = Inr (Tree ''C'' ''Box C'' None [])"
    unfolding example_resolved by simp_all
  have n: "diagram_name_of (mxfile attrs example_cells) =
      Inr (case map_of attrs ''name'' of None \<Rightarrow> ''Untitled'' | Some s \<Rightarrow> s)"
    by (simp add: diagram_name_of_found[OF example_diagram] get_attr_def)
  show ?thesis
    by (simp add: parse_drawio_xml_v3_def Let_def example_root example_cells_all example_roots
        c d n extract_edges_resolved example_edges del: clean_tree.simps dumps_node.simps)
qed

lemma one_cell_parse:
  "parse_drawio_xml_v3 exact_float
     (Document (mxfile [] [vertex_cell ''n1'' ''<br>A'' ''0'' ''0'' ''10'' ''10''])) =
   Inr \<lparr>schema_version = ''3.0'', diagram_name = ''Untitled'',
        architecture = [Tree ''n1'' '' A'' None []], connections = []\<rparr>"
proof -
  let ?cells = "[vertex_cell ''n1'' ''<br>A'' ''0'' ''0'' ''10'' ''10'']"
  have c: "findall_elem (Element ''root'' [] ?cells) ''mxCell'' = ?cells"
    by (simp add: findall_elem_def vertex_cell_def)
  have r: "resolve_containment exact_float (extract_vertices exact_float ?cells) =
    [(''n1'', \<lparr>node_id = ''n1'', label = '' A'',
            geometry = \<lparr>geo_x = 0, geo_y = 0, geo_width = 10, geo_height = 10\<rparr>, children = []\<rparr>)]"
    by (simp add: pass1_defs pass2_defs exact_float_def float_digits_def vertex_cell_def)
  have h: "hierarchical_tree (resolve_containment exact_float (extract_vertices exact_float ?cells)) = [''n1'']"
    unfolding r by (simp add: hierarchical_tree_def child_ids_def)
  have e: "extract_edges (resolve_containment exact_float (extract_vertices exact_float ?cells)) ?cells = []"
    by (simp add: extract_edges_def map_filter_def cell_connection_def get_attr_def vertex_cell_def)
  have n: "diagram_name_of (mxfile [] ?cells) = Inr ''Untitled''"
    by (simp add: diagram_name_of_found[OF example_diagram] get_attr_def)
  have t: "clean_tree (resolve_containment exact_float (extract_vertices exact_float ?cells)) [] [''n1''] =
      Inr [''n1'']"
    "dumps_node (resolve_containment exact_float (extract_vertices exact_float ?cells)) [''n1''] [] ''n1'' =
      Inr (Tree ''n1'' '' A'' None [])"
    unfolding r by simp_all
  show ?thesis
    by (simp add: parse_drawio_xml_v3_def Let_def example_root c h e n t
        del: clean_tree.simps dumps_node.simps)
qed

section \<open>Containment correctness\<close>



section \<open>Coincident boxes\<close>

text \<open>
  C2 does not hold of the code. Two elements with the same box contain each other, so each
  is put into the children of the other; both are then children, none is a root, and the
  forest of the returned document is empty although the file has two elements. Only
  elements that contain each other are lost: \<open>forest_without_mutual_containment\<close> above
  shows that the forest holds every id exactly once when no two elements do.
\<close>

theorem coincident_boxes_omitted:
  "map fst (extract_vertices exact_float
      [vertex_cell ''D'' ''Box D'' ''0'' ''0'' ''400'' ''400'',
       vertex_cell ''E'' ''Box E'' ''0'' ''0'' ''400'' ''400'']) = [''D'', ''E''] \<and>
   map (\<lambda>(k, n). (k, children n)) (resolve_containment exact_float (extract_vertices exact_float
      [vertex_cell ''D'' ''Box D'' ''0'' ''0'' ''400'' ''400'',
       vertex_cell ''E'' ''Box E'' ''0'' ''0'' ''400'' ''400''])) =
     [(''D'', [''E'']), (''E'', [''D''])] \<and>
   parse_drawio_xml_v3 exact_float (Document (mxfile [(''name'', ''Page-1'')]
      [vertex_cell ''D'' ''Box D'' ''0'' ''0'' ''400'' ''400'',
       vertex_cell ''E'' ''Box E'' ''0'' ''0'' ''400'' ''400''])) =
     Inr \<lparr>schema_version = ''3.0'', diagram_name = ''Page-1'', architecture = [],
          connections = []\<rparr>"
proof -
  let ?cells = "[vertex_cell ''D'' ''Box D'' ''0'' ''0'' ''400'' ''400'',
       vertex_cell ''E'' ''Box E'' ''0'' ''0'' ''400'' ''400'']"
  have r: "resolve_containment exact_float (extract_vertices exact_float ?cells) =
    [(''D'', \<lparr>node_id = ''D'', label = ''Box D'',
           geometry = \<lparr>geo_x = 0, geo_y = 0, geo_width = 400, geo_height = 400\<rparr>, children = [''E'']\<rparr>),
     (''E'', \<lparr>node_id = ''E'', label = ''Box E'',
           geometry = \<lparr>geo_x = 0, geo_y = 0, geo_width = 400, geo_height = 400\<rparr>, children = [''D'']\<rparr>)]"
    by (simp add: pass1_defs pass2_defs exact_float_def float_digits_def vertex_cell_def)
  have k: "map fst (extract_vertices exact_float ?cells) = [''D'', ''E'']"
    by (simp add: pass1_defs exact_float_def float_digits_def vertex_cell_def)
  have c: "findall_elem (Element ''root'' [] ?cells) ''mxCell'' = ?cells"
    by (simp add: findall_elem_def vertex_cell_def)
  have h: "hierarchical_tree (resolve_containment exact_float (extract_vertices exact_float ?cells)) = []"
    unfolding r by (simp add: hierarchical_tree_def child_ids_def)
  have e: "extract_edges (resolve_containment exact_float (extract_vertices exact_float ?cells)) ?cells = []"
    by (simp add: extract_edges_def map_filter_def cell_connection_def get_attr_def vertex_cell_def)
  have n: "diagram_name_of (mxfile [(''name'', ''Page-1'')] ?cells) = Inr ''Page-1''"
    by (simp add: diagram_name_of_found[OF example_diagram] get_attr_def)
  have p: "parse_drawio_xml_v3 exact_float (Document (mxfile [(''name'', ''Page-1'')] ?cells)) =
     Inr \<lparr>schema_version = ''3.0'', diagram_name = ''Page-1'', architecture = [],
          connections = []\<rparr>"
    by (simp add: parse_drawio_xml_v3_def Let_def example_root c h e n)
  from k r p show ?thesis by simp
qed

section \<open>Which cells become elements\<close>

text \<open>
  The first loop also asks for a non-empty \<open>id\<close>: a vertex cell with a label and a
  geometry but no \<open>id\<close> attribute is not stored.
\<close>

theorem vertex_without_id_counterexample:
  "get_attr (Element ''mxCell'' [(''value'', ''A''), (''vertex'', ''1'')]
               [Element ''mxGeometry'' [(''x'', ''0''), (''y'', ''0''), (''width'', ''10''), (''height'', ''10'')] []])
     ''vertex'' = Some ''1'' \<and>
   truthy (get_attr (Element ''mxCell'' [(''value'', ''A''), (''vertex'', ''1'')]
               [Element ''mxGeometry'' [(''x'', ''0''), (''y'', ''0''), (''width'', ''10''), (''height'', ''10'')] []])
     ''value'') \<and>
   parse_geometry exact_float (Element ''mxCell'' [(''value'', ''A''), (''vertex'', ''1'')]
               [Element ''mxGeometry'' [(''x'', ''0''), (''y'', ''0''), (''width'', ''10''), (''height'', ''10'')] []])
     = Some \<lparr>geo_x = 0, geo_y = 0, geo_width = 10, geo_height = 10\<rparr> \<and>
   cell_node exact_float (Element ''mxCell'' [(''value'', ''A''), (''vertex'', ''1'')]
               [Element ''mxGeometry'' [(''x'', ''0''), (''y'', ''0''), (''width'', ''10''), (''height'', ''10'')] []])
     = None"
  by (simp add: cell_defs)

text \<open>
  C3, amended. A cell becomes an element exactly when it is marked as a vertex, carries a
  non-empty value, carries a non-empty id and has a geometry record whose \<open>x\<close>, \<open>y\<close>,
  \<open>width\<close> and \<open>height\<close>, where present, are accepted by \<^verbatim>\<open>float\<close>. The keys of the
  element dictionary are exactly the ids of such cells, and every emitted connection has the
  ids of two such cells as its source and its target.
\<close>

theorem vertex_qualification:
  "(cell_node py cell \<noteq> None \<longleftrightarrow>
      get_attr cell ''vertex'' = Some ''1'' \<and> truthy (get_attr cell ''value'') \<and>
      truthy (get_attr cell ''id'') \<and>
      (\<exists>geo. find_elem cell ''mxGeometry'' = Some geo \<and>
         (\<forall>k \<in> {''x'', ''y'', ''width'', ''height''}.
            \<forall>s. get_attr geo k = Some s \<longrightarrow> fl_parse py s \<noteq> None))) \<and>
   (k \<in> fst ` set (extract_vertices py cells) \<longleftrightarrow>
      (\<exists>c \<in> set cells. cell_node py c \<noteq> None \<and> get_attr c ''id'' = Some k)) \<and>
   (\<forall>conn \<in> set (extract_edges (resolve_containment py (extract_vertices py cells)) cells).
      (\<exists>c \<in> set cells. cell_node py c \<noteq> None \<and> get_attr c ''id'' = Some (source_id conn)) \<and>
      (\<exists>c \<in> set cells. cell_node py c \<noteq> None \<and> get_attr c ''id'' = Some (target_id conn)))"
proof (intro conjI ballI)
  show "cell_node py cell \<noteq> None \<longleftrightarrow>
      get_attr cell ''vertex'' = Some ''1'' \<and> truthy (get_attr cell ''value'') \<and>
      truthy (get_attr cell ''id'') \<and>
      (\<exists>geo. find_elem cell ''mxGeometry'' = Some geo \<and>
         (\<forall>k \<in> {''x'', ''y'', ''width'', ''height''}.
            \<forall>s. get_attr geo k = Some s \<longrightarrow> fl_parse py s \<noteq> None))"
    unfolding cell_node_accepts parse_geometry_accepts ..
  show "k \<in> fst ` set (extract_vertices py cells) \<longleftrightarrow>
      (\<exists>c \<in> set cells. cell_node py c \<noteq> None \<and> get_attr c ''id'' = Some k)"
    by (rule extract_vertices_key_iff)
next
  fix conn
  assume "conn \<in> set (extract_edges (resolve_containment py (extract_vertices py cells)) cells)"
  then have "conn \<in> set (extract_edges (extract_vertices py cells) cells)"
    by (simp add: extract_edges_resolved)
  then obtain e where "cell_connection (extract_vertices py cells) e = Some conn"
    by (auto simp: extract_edges_def map_filter_def)
  from cell_connection_SomeD(4,5)[OF this]
  have "source_id conn \<in> fst ` set (extract_vertices py cells)"
    and "target_id conn \<in> fst ` set (extract_vertices py cells)"
    by (auto simp: key_iff)
  then show "\<exists>c \<in> set cells. cell_node py c \<noteq> None \<and> get_attr c ''id'' = Some (source_id conn)"
    and "\<exists>c \<in> set cells. cell_node py c \<noteq> None \<and> get_attr c ''id'' = Some (target_id conn)"
    by (simp_all add: extract_vertices_key_iff)
qed

theorem vertex_qualification_witness:
  "cell_node exact_float (vertex_cell ''A'' ''Box A'' ''0'' ''0'' ''400'' ''400'') \<noteq> None \<and>
   ''A'' \<in> fst ` set (extract_vertices exact_float example_cells) \<and>
   extract_edges (resolve_containment exact_float (extract_vertices exact_float example_cells)) example_cells =
     [\<lparr>source_id = ''B'', source_label = ''Box B'', target_id = ''C'', target_label = ''Box C''\<rparr>] \<and>
   (\<exists>c \<in> set example_cells. cell_node exact_float c \<noteq> None \<and> get_attr c ''id'' = Some ''B'')"
proof -
  have e: "extract_edges (resolve_containment exact_float (extract_vertices exact_float example_cells)) example_cells =
     [\<lparr>source_id = ''B'', source_label = ''Box B'', target_id = ''C'', target_label = ''Box C''\<rparr>]"
    unfolding example_resolved by (simp add: example_cells_def extract_edges_def map_filter_def cell_connection_def
        get_attr_def vertex_cell_def edge_cell_def)
  have a: "cell_node exact_float (vertex_cell ''A'' ''Box A'' ''0'' ''0'' ''400'' ''400'') \<noteq> None"
    by (simp add: cell_defs)
  have k: "''A'' \<in> fst ` set (extract_vertices exact_float example_cells)"
    unfolding example_vertices by simp
  from vertex_qualification[of exact_float "vertex_cell ''A'' ''Box A'' ''0'' ''0'' ''400'' ''400''"
      "''A''" example_cells] e a k
  show ?thesis by simp
qed

section \<open>Label normalization\<close>

text \<open>
  The value is stripped first and the line-break token replaced afterwards, so a value that
  begins or ends with the token gives a label that begins or ends with a space.
\<close>

theorem label_leading_space_counterexample:
  "parse_drawio_xml_v3 exact_float
     (Document (mxfile [] [vertex_cell ''n1'' ''<br>A'' ''0'' ''0'' ''10'' ''10''])) =
   Inr \<lparr>schema_version = ''3.0'', diagram_name = ''Untitled'',
        architecture = [Tree ''n1'' '' A'' None []], connections = []\<rparr> \<and>
   isspace (hd '' A'')"
  by (simp add: one_cell_parse isspace_def)

text \<open>
  C4, amended. The label of every node of the emitted forest, at any depth, is the value of a
  vertex cell with that id, with leading and trailing whitespace stripped and then every
  line-break token replaced by one space, and nothing else. The label begins with whitespace
  only when the stripped value begins with the token, and ends with whitespace only when the
  stripped value ends with it.
\<close>

theorem label_normalization:
  assumes "parse_drawio_xml_v3 py (Document doc) = Inr out"
    and "find_graph_model_root doc = Some graph_model_root"
    and "cells = findall_elem graph_model_root ''mxCell''"
    and "t \<in> set (architecture out)" and "(a, l, g) \<in> set (tree_nodes t)"
  shows "\<exists>c \<in> set cells. \<exists>v. get_attr c ''value'' = Some v \<and> get_attr c ''id'' = Some a \<and>
           l = replace_br (strip v) \<and>
           (l \<noteq> [] \<and> isspace (hd l) \<longrightarrow> take 4 (strip v) = ''<br>'') \<and>
           (l \<noteq> [] \<and> isspace (last l) \<longrightarrow> suffix ''<br>'' (strip v))"
proof -
  from parse_forest_nodes[OF assms(1,2) refl assms(4,5)] obtain n where
    "(a, n) \<in> set (extract_vertices py cells)" "l = label n" unfolding assms(3) by blast
  with element_label[of a n py cells] show ?thesis by simp
qed

theorem label_normalization_witness:
  "\<exists>c \<in> set example_cells. \<exists>v. get_attr c ''value'' = Some v \<and> get_attr c ''id'' = Some ''B'' \<and>
      ''Box B'' = replace_br (strip v)"
proof -
  let ?out = "\<lparr>schema_version = ''3.0'', diagram_name = ''Untitled'',
          architecture = [Tree ''A'' ''Box A'' None [Tree ''B'' ''Box B'' None []],
                          Tree ''C'' ''Box C'' None []],
          connections = [\<lparr>source_id = ''B'', source_label = ''Box B'',
                           target_id = ''C'', target_label = ''Box C''\<rparr>]\<rparr>"
  have 1: "parse_drawio_xml_v3 exact_float (Document (mxfile [] example_cells)) = Inr ?out"
    by (simp add: example_parse)
  have 4: "Tree ''A'' ''Box A'' None [Tree ''B'' ''Box B'' None []] \<in> set (architecture ?out)"
    by simp
  have 5: "(''B'', ''Box B'', None) \<in> set (tree_nodes (Tree ''A'' ''Box A'' None [Tree ''B'' ''Box B'' None []]))"
    by simp
  from label_normalization[OF 1 example_root example_cells_all[symmetric] 4 5]
  show ?thesis by blast
qed

section \<open>Connections\<close>

text \<open>
  C5. When the file has a graph-model root and a diagram element, the converter returns a
  document whose connection list holds, in the order of the cells, exactly one entry for each
  edge cell whose source and target are both keys of the element dictionary, with the two ids
  and the labels of those two elements. Every other edge cell leaves no entry and causes no
  failure.
\<close>

theorem connection_filtering:
  assumes "find_graph_model_root doc = Some graph_model_root"
    and "cells = findall_elem graph_model_root ''mxCell''"
    and "elements = extract_vertices py cells"
    and "find_elem doc ''diagram'' = Some d"
  shows "\<exists>out. parse_drawio_xml_v3 py (Document doc) = Inr out \<and>
     connections out =
       map (\<lambda>c. \<lparr>source_id = the (get_attr c ''source''),
                 source_label = label (the (map_of elements (the (get_attr c ''source'')))),
                 target_id = the (get_attr c ''target''),
                 target_label = label (the (map_of elements (the (get_attr c ''target''))))\<rparr>)
           (filter (\<lambda>c. get_attr c ''edge'' = Some ''1'' \<and>
                        (\<exists>s t. get_attr c ''source'' = Some s \<and> get_attr c ''target'' = Some t \<and>
                               s \<in> fst ` set elements \<and> t \<in> fst ` set elements))
                   cells)"
proof -
  let ?conn = "\<lambda>c. \<lparr>source_id = the (get_attr c ''source''),
                 source_label = label (the (map_of elements (the (get_attr c ''source'')))),
                 target_id = the (get_attr c ''target''),
                 target_label = label (the (map_of elements (the (get_attr c ''target''))))\<rparr>"
  let ?ok = "\<lambda>c. get_attr c ''edge'' = Some ''1'' \<and>
                        (\<exists>s t. get_attr c ''source'' = Some s \<and> get_attr c ''target'' = Some t \<and>
                               s \<in> fst ` set elements \<and> t \<in> fst ` set elements)"
  have ok: "cell_connection elements c \<noteq> None \<longleftrightarrow> ?ok c" for c
    by (auto simp: cell_connection_def key_iff split: option.splits)
  have conn: "the (cell_connection elements c) = ?conn c" if "?ok c" for c
    using that by (auto simp: cell_connection_def key_iff)
  have "extract_edges elements cells =
        map (the \<circ> cell_connection elements) (filter (\<lambda>c. cell_connection elements c \<noteq> None) cells)"
    by (simp add: extract_edges_def map_filter_def)
  also have "\<dots> = map (the \<circ> cell_connection elements) (filter ?ok cells)"
    by (simp only: ok)
  also have "\<dots> = map ?conn (filter ?ok cells)"
    by (rule map_cong[OF refl]) (simp add: conn)
  finally have e: "extract_edges elements cells = map ?conn (filter ?ok cells)" .
  from assms(4) obtain name where "diagram_name_of doc = Inr name"
    by (simp add: diagram_name_of_found)
  with parse_document[OF assms(1-3)] obtain forest where
    "parse_drawio_xml_v3 py (Document doc) =
       Inr \<lparr>schema_version = ''3.0'', diagram_name = name, architecture = forest,
            connections = extract_edges elements cells\<rparr>" by auto
  with e show ?thesis by simp
qed

theorem connection_filtering_witness:
  "\<exists>out. parse_drawio_xml_v3 exact_float (Document (mxfile [(''name'', ''Page-1'')] example_cells)) = Inr out \<and>
     connections out =
       [\<lparr>source_id = ''B'', source_label = ''Box B'', target_id = ''C'', target_label = ''Box C''\<rparr>]"
proof -
  let ?E = "extract_vertices exact_float example_cells"
  let ?conn = "\<lambda>c. \<lparr>source_id = the (get_attr c ''source''),
                 source_label = label (the (map_of ?E (the (get_attr c ''source'')))),
                 target_id = the (get_attr c ''target''),
                 target_label = label (the (map_of ?E (the (get_attr c ''target''))))\<rparr>"
  let ?ok = "\<lambda>c. get_attr c ''edge'' = Some ''1'' \<and>
                        (\<exists>s t. get_attr c ''source'' = Some s \<and> get_attr c ''target'' = Some t \<and>
                               s \<in> fst ` set ?E \<and> t \<in> fst ` set ?E)"
  have v: "map ?conn (filter ?ok example_cells) =
     [\<lparr>source_id = ''B'', source_label = ''Box B'', target_id = ''C'', target_label = ''Box C''\<rparr>]"
    unfolding example_vertices by (simp add: example_cells_def get_attr_def vertex_cell_def edge_cell_def)
  from connection_filtering[OF example_root example_cells_all[symmetric] refl example_diagram,
      of exact_float "[(''name'', ''Page-1'')]"]
  show ?thesis unfolding v .
qed

section \<open>Failure and success of the converter\<close>

text \<open>
  C6. A file that is not well-formed, and a document without the graph-model root, make the
  converter return \<open>None\<close>: there is no output document. Whenever it does return a document,
  the document is complete: the schema version, the name of the diagram, one tree for each
  root of the resolved element set, and the connection list of the third pass.
\<close>

theorem parse_all_or_nothing:
  "(file = NotWellFormed \<or> (\<exists>doc. file = Document doc \<and> find_graph_model_root doc = None) \<longrightarrow>
      parse_drawio_xml_v3 py file = Inl ReturnsNone) \<and>
   (parse_drawio_xml_v3 py file = Inr out \<longrightarrow>
      (\<exists>doc graph_model_root.
         file = Document doc \<and> find_graph_model_root doc = Some graph_model_root \<and>
         schema_version out = ''3.0'' \<and>
         diagram_name_of doc = Inr (diagram_name out) \<and>
         map tree_id (architecture out) =
           hierarchical_tree (resolve_containment py
             (extract_vertices py (findall_elem graph_model_root ''mxCell''))) \<and>
         connections out =
           extract_edges (extract_vertices py (findall_elem graph_model_root ''mxCell''))
             (findall_elem graph_model_root ''mxCell'')))"
proof (intro conjI impI)
  assume "file = NotWellFormed \<or> (\<exists>doc. file = Document doc \<and> find_graph_model_root doc = None)"
  then show "parse_drawio_xml_v3 py file = Inl ReturnsNone"
    by (auto simp: parse_drawio_xml_v3_def)
next
  assume p: "parse_drawio_xml_v3 py file = Inr out"
  from parse_Inr_document[OF p] obtain doc g where
    f: "file = Document doc" and g: "find_graph_model_root doc = Some g" by blast
  let ?cells = "findall_elem g ''mxCell''"
  let ?E = "extract_vertices py ?cells"
  from parse_document[OF g refl refl, of py] obtain forest where
    a: "list_all2 (\<lambda>i t. tree_id t = i \<and> map_option label (map_of ?E i) = Some (tree_label t))
          (hierarchical_tree (resolve_containment py ?E)) forest"
    and r: "parse_drawio_xml_v3 py (Document doc) =
             (case diagram_name_of doc of
                Inl e \<Rightarrow> Inl e
              | Inr name \<Rightarrow>
                  Inr \<lparr>schema_version = ''3.0'', diagram_name = name, architecture = forest,
                       connections = extract_edges ?E ?cells\<rparr>)" by blast
  from r p f obtain name where n: "diagram_name_of doc = Inr name"
    and o: "out = \<lparr>schema_version = ''3.0'', diagram_name = name, architecture = forest,
                   connections = extract_edges ?E ?cells\<rparr>"
    by (cases "diagram_name_of doc") auto
  from a have "map tree_id forest = hierarchical_tree (resolve_containment py ?E)"
    by (induction rule: list_all2_induct) auto
  with f g n o show "\<exists>doc graph_model_root.
         file = Document doc \<and> find_graph_model_root doc = Some graph_model_root \<and>
         schema_version out = ''3.0'' \<and>
         diagram_name_of doc = Inr (diagram_name out) \<and>
         map tree_id (architecture out) =
           hierarchical_tree (resolve_containment py
             (extract_vertices py (findall_elem graph_model_root ''mxCell''))) \<and>
         connections out =
           extract_edges (extract_vertices py (findall_elem graph_model_root ''mxCell''))
             (findall_elem graph_model_root ''mxCell'')" by simp
qed

theorem parse_all_or_nothing_witness:
  "parse_drawio_xml_v3 exact_float NotWellFormed = Inl ReturnsNone \<and>
   parse_drawio_xml_v3 exact_float (Document (Element ''mxfile'' [] [])) = Inl ReturnsNone \<and>
   (\<exists>out. parse_drawio_xml_v3 exact_float (Document (mxfile [] example_cells)) = Inr out \<and>
      schema_version out = ''3.0'' \<and> map tree_id (architecture out) = [''A'', ''C''])"
proof -
  let ?out = "\<lparr>schema_version = ''3.0'', diagram_name = ''Untitled'',
          architecture = [Tree ''A'' ''Box A'' None [Tree ''B'' ''Box B'' None []],
                          Tree ''C'' ''Box C'' None []],
          connections = [\<lparr>source_id = ''B'', source_label = ''Box B'',
                           target_id = ''C'', target_label = ''Box C''\<rparr>]\<rparr>"
  have 1: "parse_drawio_xml_v3 exact_float NotWellFormed = Inl ReturnsNone"
    using parse_all_or_nothing[of NotWellFormed exact_float] by simp
  have "find_graph_model_root (Element ''mxfile'' [] []) = None"
    by (simp add: find_graph_model_root_def)
  then have 2: "parse_drawio_xml_v3 exact_float (Document (Element ''mxfile'' [] [])) = Inl ReturnsNone"
    using parse_all_or_nothing[of "Document (Element ''mxfile'' [] [])" exact_float] by simp
  have p: "parse_drawio_xml_v3 exact_float (Document (mxfile [] example_cells)) = Inr ?out"
    by (simp add: example_parse)
  with parse_all_or_nothing[of "Document (mxfile [] example_cells)" exact_float ?out]
  have "schema_version ?out = ''3.0'' \<and> map tree_id (architecture ?out) = [''A'', ''C'']"
    by simp
  with 1 2 p show ?thesis by simp
qed

section \<open>Roots\<close>



section \<open>Zero-size elements\<close>




section \<open>The default diagram name\<close>

lemma default_diagram_name:
  assumes "find_graph_model_root doc = Some graph_model_root"
    and "find_elem doc ''diagram'' = Some d"
    and "get_attr d ''name'' = None"
  shows "\<exists>out. parse_drawio_xml_v3 py (Document doc) = Inr out \<and>
           diagram_name out = ''Untitled'' \<and> schema_version out = ''3.0'' \<and>
           map tree_id (architecture out) =
             hierarchical_tree (resolve_containment py
               (extract_vertices py (findall_elem graph_model_root ''mxCell''))) \<and>
           connections out =
             extract_edges (extract_vertices py (findall_elem graph_model_root ''mxCell''))
               (findall_elem graph_model_root ''mxCell'')"
proof -
  let ?cells = "findall_elem graph_model_root ''mxCell''"
  let ?E = "extract_vertices py ?cells"
  from assms(2,3) have n: "diagram_name_of doc = Inr ''Untitled''"
    by (simp add: diagram_name_of_found)
  from parse_document[OF assms(1) refl refl, of py] n obtain forest where
    a: "list_all2 (\<lambda>i t. tree_id t = i \<and> map_option label (map_of ?E i) = Some (tree_label t))
          (hierarchical_tree (resolve_containment py ?E)) forest"
    and r: "parse_drawio_xml_v3 py (Document doc) =
              Inr \<lparr>schema_version = ''3.0'', diagram_name = ''Untitled'', architecture = forest,
                   connections = extract_edges ?E ?cells\<rparr>" by auto
  from a have "map tree_id forest = hierarchical_tree (resolve_containment py ?E)"
    by (induction rule: list_all2_induct) auto
  with r show ?thesis by simp
qed

lemma missing_diagram_element:
  assumes "find_graph_model_root doc = Some graph_model_root"
    and "find_elem doc ''diagram'' = None"
  shows "parse_drawio_xml_v3 py (Document doc) = Inl AttributeError"
proof -
  from assms(2) have "diagram_name_of doc = Inl AttributeError"
    by (simp add: diagram_name_of_def)
  with parse_document[OF assms(1) refl refl, of py] show ?thesis by auto
qed

text \<open>
  C9 does not hold of the code. The name is read with
  \<^verbatim>\<open>root.find("diagram").get("name", "Untitled")\<close>: a diagram element without a \<open>name\<close>
  attribute gives \<open>Untitled\<close> (\<open>default_diagram_name\<close> above), but when the document element
  has no \<open>diagram\<close> child, \<^verbatim>\<open>find\<close> returns \<^verbatim>\<open>None\<close> and the call of \<^verbatim>\<open>get\<close> raises an
  \<^verbatim>\<open>AttributeError\<close> that nothing catches. A file with a graph-model root right under the
  document element has no name for its diagram, and the converter returns no document for
  it, with no placeholder name.
\<close>

theorem missing_diagram_raises:
  "find_graph_model_root
     (Element ''mxfile'' []
        [Element ''mxGraphModel'' []
           [Element ''root'' [] [vertex_cell ''A'' ''Box A'' ''0'' ''0'' ''400'' ''400'']]]) =
     Some (Element ''root'' [] [vertex_cell ''A'' ''Box A'' ''0'' ''0'' ''400'' ''400'']) \<and>
   extract_vertices exact_float [vertex_cell ''A'' ''Box A'' ''0'' ''0'' ''400'' ''400''] =
     [(''A'', \<lparr>node_id = ''A'', label = ''Box A'',
              geometry = \<lparr>geo_x = 0, geo_y = 0, geo_width = 400, geo_height = 400\<rparr>,
              children = []\<rparr>)] \<and>
   parse_drawio_xml_v3 exact_float
     (Document (Element ''mxfile'' []
        [Element ''mxGraphModel'' []
           [Element ''root'' [] [vertex_cell ''A'' ''Box A'' ''0'' ''0'' ''400'' ''400'']]])) =
     Inl AttributeError"
proof -
  let ?cells = "[vertex_cell ''A'' ''Box A'' ''0'' ''0'' ''400'' ''400'']"
  let ?doc = "Element ''mxfile'' [] [Element ''mxGraphModel'' [] [Element ''root'' [] ?cells]]"
  have g: "find_graph_model_root ?doc = Some (Element ''root'' [] ?cells)"
    by (simp add: find_graph_model_root_def findall_elem_def find_elem_def)
  have v: "extract_vertices exact_float ?cells =
     [(''A'', \<lparr>node_id = ''A'', label = ''Box A'',
              geometry = \<lparr>geo_x = 0, geo_y = 0, geo_width = 400, geo_height = 400\<rparr>,
              children = []\<rparr>)]"
    by (simp add: pass1_defs exact_float_def float_digits_def vertex_cell_def)
  have n: "find_elem ?doc ''diagram'' = None"
    by (simp add: find_elem_def findall_elem_def)
  from g v missing_diagram_element[OF g n] show ?thesis by simp
qed

section \<open>Absent geometry attributes\<close>

text \<open>
  C10. A vertex cell with a geometry record is stored although some of \<open>x\<close>, \<open>y\<close>, \<open>width\<close>,
  \<open>height\<close> are absent from the record: each absent attribute is the coordinate \<open>0\<close> of the
  stored geometry, the one the containment pass reads, and each present one is what
  \<^verbatim>\<open>float\<close> makes of it.
\<close>

theorem geometry_defaults:
  assumes "find_elem cell ''mxGeometry'' = Some geo"
    and "\<forall>k \<in> {''x'', ''y'', ''width'', ''height''}. \<forall>s. get_attr geo k = Some s \<longrightarrow> fl_parse py s \<noteq> None"
    and "get_attr cell ''vertex'' = Some ''1''"
    and "truthy (get_attr cell ''value'')"
    and "get_attr cell ''id'' = Some k" and "k \<noteq> []"
    and "cell \<in> set cells"
  shows "\<exists>n. cell_node py cell = Some n \<and>
           k \<in> fst ` set (extract_vertices py cells) \<and>
           (get_attr geo ''x'' = None \<longrightarrow> geo_x (geometry n) = fl_zero py) \<and>
           (get_attr geo ''y'' = None \<longrightarrow> geo_y (geometry n) = fl_zero py) \<and>
           (get_attr geo ''width'' = None \<longrightarrow> geo_width (geometry n) = fl_zero py) \<and>
           (get_attr geo ''height'' = None \<longrightarrow> geo_height (geometry n) = fl_zero py) \<and>
           (\<forall>s. get_attr geo ''x'' = Some s \<longrightarrow> fl_parse py s = Some (geo_x (geometry n))) \<and>
           (\<forall>s. get_attr geo ''y'' = Some s \<longrightarrow> fl_parse py s = Some (geo_y (geometry n))) \<and>
           (\<forall>s. get_attr geo ''width'' = Some s \<longrightarrow> fl_parse py s = Some (geo_width (geometry n))) \<and>
           (\<forall>s. get_attr geo ''height'' = Some s \<longrightarrow> fl_parse py s = Some (geo_height (geometry n)))"
proof -
  from assms(1,2) have "parse_geometry py cell \<noteq> None"
    unfolding parse_geometry_accepts by blast
  then obtain g where g: "parse_geometry py cell = Some g" by blast
  with assms(3-6) obtain n where n: "cell_node py cell = Some n" "geometry n = g"
    by (auto simp: cell_node_def)
  from n(1) assms(5,7) have key: "k \<in> fst ` set (extract_vertices py cells)"
    unfolding extract_vertices_key_iff by auto
  from g assms(1) have
    "float_attr py geo ''x'' = Some (geo_x g)" "float_attr py geo ''y'' = Some (geo_y g)"
    "float_attr py geo ''width'' = Some (geo_width g)"
    "float_attr py geo ''height'' = Some (geo_height g)"
    by (simp_all add: parse_geometry_Some_iff)
  then show ?thesis using n key by (auto simp: float_attr_Some_iff)
qed

theorem geometry_defaults_witness:
  "(\<exists>n. cell_node exact_float
          (Element ''mxCell'' [(''id'', ''P''), (''value'', ''Point''), (''vertex'', ''1'')]
             [Element ''mxGeometry'' [(''x'', ''5''), (''y'', ''7'')] []]) = Some n \<and>
        geometry n = \<lparr>geo_x = 5, geo_y = 7, geo_width = 0, geo_height = 0\<rparr>)"
proof -
  let ?geo = "Element ''mxGeometry'' [(''x'', ''5''), (''y'', ''7'')] []"
  let ?cell = "Element ''mxCell'' [(''id'', ''P''), (''value'', ''Point''), (''vertex'', ''1'')] [?geo]"
  have 1: "find_elem ?cell ''mxGeometry'' = Some ?geo" by (simp add: find_elem_def findall_elem_def)
  have 2: "\<forall>k \<in> {''x'', ''y'', ''width'', ''height''}. \<forall>s. get_attr ?geo k = Some s \<longrightarrow> fl_parse exact_float s \<noteq> None"
    by (simp add: get_attr_def exact_float_def float_digits_def)
  have 3: "get_attr ?cell ''vertex'' = Some ''1''" by (simp add: get_attr_def)
  have 4: "truthy (get_attr ?cell ''value'')" by (simp add: get_attr_def truthy_def)
  have 5: "get_attr ?cell ''id'' = Some ''P''" by (simp add: get_attr_def)
  have 6: "''P'' \<noteq> []" by simp
  have 7: "?cell \<in> set [?cell]" by simp
  have x: "get_attr ?geo ''x'' = Some ''5''" "get_attr ?geo ''y'' = Some ''7''"
    "get_attr ?geo ''width'' = None" "get_attr ?geo ''height'' = None"
    by (simp_all add: get_attr_def)
  have f: "fl_parse exact_float ''5'' = Some 5" "fl_parse exact_float ''7'' = Some 7"
    "fl_zero exact_float = 0"
    by (simp_all add: exact_float_def float_digits_def)
  from geometry_defaults[OF 1 2 3 4 5 6 7] obtain n where
    n: "cell_node exact_float ?cell = Some n" "geo_x (geometry n) = 5" "geo_y (geometry n) = 7"
      "geo_width (geometry n) = 0" "geo_height (geometry n) = 0"
    using x f by auto
  then have "geometry n = \<lparr>geo_x = 5, geo_y = 7, geo_width = 0, geo_height = 0\<rparr>"
    by (cases "geometry n") simp
  with n(1) show ?thesis by blast
qed

end
